theory Spec2Isabelle
  imports Main "HOL-Library.Word" "HOL-Library.Signed_Division"
begin

section \<open>Machine integers, panics and errors\<close>

text \<open>
  The server is a Go program built for a 64-bit platform: \<open>int\<close> and \<open>int64\<close> are both
  64-bit two's complement integers, so \<open>int64(x)\<close> of an \<open>int\<close> is the identity.  Counts of
  lines and statements (\<open>len\<close>, loop indices) are bounded by the size of a request body and
  are modelled as unbounded \<open>int\<close>.

  A Go function can end in three ways: it returns normally, it returns a non-nil \<open>error\<close>,
  or it panics.  The last two are the two constructors of \<open>failure\<close>; a function that can
  fail returns \<open>failure + 'a\<close>.
\<close>

type_synonym int64 = "64 word"

datatype failure = Panic string | Error string

definition andThen :: "failure + 'a \<Rightarrow> ('a \<Rightarrow> failure + 'b) \<Rightarrow> failure + 'b" where
  "andThen m f = (case m of Inl e \<Rightarrow> Inl e | Inr a \<Rightarrow> f a)"

text \<open>Go's \<open>x / y\<close> and \<open>x % y\<close> on \<open>int64\<close>: the quotient is truncated towards zero, the
  remainder has the sign of the dividend, the result wraps around (\<open>MinInt64 / -1\<close>), and a
  zero divisor is a run-time panic.\<close>

definition quo64 :: "int64 \<Rightarrow> int64 \<Rightarrow> failure + int64" where
  "quo64 x y =
     (if y = 0 then Inl (Panic ''runtime error: integer divide by zero'')
      else Inr (word_of_int (sint x sdiv sint y)))"

definition rem64 :: "int64 \<Rightarrow> int64 \<Rightarrow> failure + int64" where
  "rem64 x y =
     (if y = 0 then Inl (Panic ''runtime error: integer divide by zero'')
      else Inr (word_of_int (sint x smod sint y)))"

text \<open>Indexing and slicing of a Go slice; out of range is a run-time panic.\<close>

definition index :: "'a list \<Rightarrow> int \<Rightarrow> failure + 'a" where
  "index xs i =
     (if 0 \<le> i \<and> i < int (length xs) then Inr (xs ! nat i)
      else Inl (Panic ''runtime error: index out of range''))"

definition assign :: "'a list \<Rightarrow> int \<Rightarrow> 'a \<Rightarrow> failure + 'a list" where
  "assign xs i v =
     (if 0 \<le> i \<and> i < int (length xs) then Inr (xs[nat i := v])
      else Inl (Panic ''runtime error: index out of range''))"

definition sliceFrom :: "'a list \<Rightarrow> int \<Rightarrow> failure + 'a list" where
  "sliceFrom xs i =
     (if 0 \<le> i \<and> i \<le> int (length xs) then Inr (drop (nat i) xs)
      else Inl (Panic ''runtime error: slice bounds out of range''))"

definition sliceTo :: "'a list \<Rightarrow> int \<Rightarrow> failure + 'a list" where
  "sliceTo xs i =
     (if 0 \<le> i \<and> i \<le> int (length xs) then Inr (take (nat i) xs)
      else Inl (Panic ''runtime error: slice bounds out of range''))"

section \<open>The standard library, as far as the server uses it\<close>

subsection \<open>Characters, \<open>bytes.Split\<close>, \<open>bytes.IndexByte\<close>\<close>

definition isDigit :: "char \<Rightarrow> bool" where
  "isDigit c = (c \<in> set ''0123456789'')"

definition isWordChar :: "char \<Rightarrow> bool" where
  "isWordChar c =
     (c \<in> set ''0123456789abcdefghijklmnopqrstuvwxyzABCDEFGHIJKLMNOPQRSTUVWXYZ_'')"

text \<open>\<open>bytes.Split(body, []byte("\n"))\<close>: all pieces between newlines; \<open>k\<close> newlines give
  \<open>k + 1\<close> pieces, and an empty body gives one empty piece.\<close>

fun bytes_Split :: "string \<Rightarrow> string list" where
  "bytes_Split [] = [[]]"
| "bytes_Split (c # cs) =
     (if c = CHR 0x0A then [] # bytes_Split cs
      else (case bytes_Split cs of
              [] \<Rightarrow> [[c]]
            | l # ls \<Rightarrow> (c # l) # ls))"

text \<open>\<open>bytes.IndexByte(line, c)\<close>: the index of the first \<open>c\<close>, or \<open>-1\<close>.\<close>

fun IndexByte :: "string \<Rightarrow> char \<Rightarrow> int" where
  "IndexByte [] b = - 1"
| "IndexByte (c # cs) b =
     (if c = b then 0
      else (let k = IndexByte cs b in if k < 0 then - 1 else k + 1))"

subsection \<open>\<open>strconv.Atoi\<close> and the verb \<open>%d\<close>\<close>

datatype NumError = ErrSyntax | ErrRange

definition digitsValue :: "string \<Rightarrow> int" where
  "digitsValue ds = foldl (\<lambda>n c. 10 * n + (of_char c - 48)) 0 ds"

text \<open>\<open>strconv.Atoi\<close>: an optional sign, then at least one decimal digit and nothing else
  (\<open>ErrSyntax\<close> otherwise); a value outside \<open>int\<close> is \<open>ErrRange\<close>.  A string with both
  defects is given \<open>ErrSyntax\<close> here; the server only tests whether there is an error.\<close>

definition Atoi :: "string \<Rightarrow> NumError + int64" where
  "Atoi s =
     (let neg = (s \<noteq> [] \<and> hd s = CHR ''-'');
          ds = (if s \<noteq> [] \<and> (hd s = CHR ''-'' \<or> hd s = CHR ''+'') then tl s else s)
      in if ds = [] \<or> \<not> list_all isDigit ds then Inl ErrSyntax
         else (let v = (if neg then - digitsValue ds else digitsValue ds)
               in if v < - (2 ^ 63) \<or> 2 ^ 63 \<le> v then Inl ErrRange
                  else Inr (word_of_int v)))"

fun showNat :: "nat \<Rightarrow> string" where
  "showNat n =
     (if n < 10 then [''0123456789'' ! n]
      else showNat (n div 10) @ [''0123456789'' ! (n mod 10)])"

declare showNat.simps [simp del]

text \<open>\<open>fmt.Sprintf("%d", k)\<close>.\<close>

definition fmt_d :: "int \<Rightarrow> string" where
  "fmt_d k = (if k < 0 then CHR ''-'' # showNat (nat (- k)) else showNat (nat k))"

subsection \<open>\<open>time.Time\<close>\<close>

text \<open>
  A \<open>time.Time\<close> without monotonic reading is the pair of the methods \<open>sec()\<close> (seconds
  since January 1 of year 1, an \<open>int64\<close>) and \<open>nsec()\<close>.  \<open>time.Unix(s, 0)\<close> adds the
  constant \<open>unixToInternal\<close> to \<open>s\<close>, \<open>Unix()\<close> subtracts it, both in \<open>int64\<close>;
  \<open>After\<close> compares the internal seconds, then the nanoseconds.

  \<open>Truncate t d1\<close> is \<open>t.Truncate(time.Duration(d1) * time.Second)\<close>: for a positive whole
  number of seconds the instant is rounded down to a multiple of \<open>d1\<close> counted from the
  zero time and the nanoseconds are dropped; a subtraction that would leave \<open>int64\<close>
  saturates, as \<open>Time.Add\<close> does.
\<close>

record Time =
  sec :: int64
  nsec :: nat

definition unixToInternal :: int64 where
  "unixToInternal = 62135596800"

definition time_Unix :: "int64 \<Rightarrow> Time" where
  "time_Unix s = \<lparr>sec = s + unixToInternal, nsec = 0\<rparr>"

definition Unix :: "Time \<Rightarrow> int64" where
  "Unix t = sec t - unixToInternal"

definition After :: "Time \<Rightarrow> Time \<Rightarrow> bool" where
  "After t u = (sint (sec u) < sint (sec t) \<or> (sec t = sec u \<and> nsec u < nsec t))"

definition Truncate :: "Time \<Rightarrow> int64 \<Rightarrow> Time" where
  "Truncate t d1 =
     (if sint d1 \<le> 0 then t
      else (let s = sint (sec t); f = s - s mod sint d1
            in \<lparr>sec = (if f < - (2 ^ 63) then - (2 ^ 63 - 1) else word_of_int f),
                nsec = 0\<rparr>))"

definition Second :: int64 where
  "Second = 1000000000"

section \<open>The sequence store, an external collaborator\<close>

text \<open>
  The package \<open>sequence\<close> is not part of the repository.  Its store is a state of an
  arbitrary type \<open>'s\<close> with the operations the server calls; a query result is a value
  of an arbitrary type \<open>'q\<close> of which the server reads the number of rows
  (\<open>len(qs.Count)\<close>) and the serialization.  An \<open>error\<close> is its text, \<open>nil\<close> is \<open>None\<close>.
\<close>

datatype State = StateInactive | StateActive | StateUnknown

datatype StatementType = StatementAdd

record Statement =
  Key :: string
  Timestamp :: Time
  Value :: State
  Type :: StatementType
  CreateIfNotExists :: bool
  CreateWithTimestamp :: Time
  CreateWithFrequency :: int

record BatchResult =
  HasErrors :: bool
  ErrorVars :: "string option list"

record ('s, 'q) Store =
  Batch :: "'s \<Rightarrow> Statement list \<Rightarrow> BatchResult \<times> 's"
  Get :: "'s \<Rightarrow> string \<Rightarrow> bool"
  Query :: "'s \<Rightarrow> string \<Rightarrow> Time \<Rightarrow> Time \<Rightarrow> int64 \<Rightarrow> string + 'q"
  Dump :: "'s \<Rightarrow> string + string"
  Rows :: "'q \<Rightarrow> nat"
  Serialize :: "'q \<Rightarrow> string \<Rightarrow> string"

text \<open>What a handler leaves behind: the store, the files on disk (of an arbitrary type
  \<open>'f\<close>, written by \<open>os.WriteFile\<close> only), the calls made to the store in order, and the
  lines written to the log.\<close>

datatype StoreCall =
    CallBatch "Statement list"
  | CallGet string
  | CallQuery string Time Time int64
  | CallDump

record ('s, 'f) world =
  store :: 's
  disk :: 'f
  calls :: "StoreCall list"
  logs :: "string list"

definition logPrint :: "string \<Rightarrow> ('s, 'f) world \<Rightarrow> ('s, 'f) world" where
  "logPrint line w = w\<lparr>logs := logs w @ [line]\<rparr>"

definition called :: "StoreCall \<Rightarrow> ('s, 'f) world \<Rightarrow> ('s, 'f) world" where
  "called c w = w\<lparr>calls := calls w @ [c]\<rparr>"

section \<open>Constants of the server\<close>

definition sequenceFrequency :: int64 where
  "sequenceFrequency = 15"

definition maxNumberOfPoints :: int64 where
  "maxNumberOfPoints = 380"

definition maskTime :: string where
  "maskTime = ''2006-01-02 15:04:05''"

definition statusOK :: string where
  "statusOK = ''ok''"

definition statusWarning :: string where
  "statusWarning = ''warning''"

definition statusError :: string where
  "statusError = ''error''"

definition aggregations :: "int64 list" where
  "aggregations =
     [15, 30, 60, 120, 300, 600, 900, 1200, 1800, 3600, 7200, 14400, 43200, 86400]"

section \<open>Requests and responses\<close>

record Request =
  Method :: string
  Body :: "string + string"
  FormValue :: "string \<Rightarrow> string"

record Response =
  contentType :: string
  statusCode :: int
  written :: string

definition quoted :: "string \<Rightarrow> string" where
  "quoted s = [CHR 0x22] @ s @ [CHR 0x22]"

definition writeResponse :: "int \<Rightarrow> string \<Rightarrow> string \<Rightarrow> string option \<Rightarrow> Response" where
  "writeResponse c status message data =
     (let prefix = ''{'' @ quoted ''code'' @ '':'' @ fmt_d c @ '','' @
                   quoted ''status'' @ '':'' @ quoted status @ '','' @
                   quoted ''message'' @ '':'' @ quoted message
      in \<lparr>contentType = ''application/json'', statusCode = c,
          written = (case data of
                    None \<Rightarrow> prefix @ ''}''
                  | Some d \<Rightarrow> prefix @ '','' @ quoted ''data'' @ '':'' @ d @ ''}'')\<rparr>)"

section \<open>Queries\<close>

subsection \<open>\<open>ceilInt64\<close>\<close>

definition ceilInt64 :: "int64 \<Rightarrow> int64 \<Rightarrow> failure + int64" where
  "ceilInt64 x step =
     andThen (rem64 x step) (\<lambda>r.
       if r \<noteq> 0 then Inr (x + step - r) else Inr x)"

subsection \<open>\<open>newQueryArgs\<close>\<close>

record queryArgs =
  start :: Time
  end' :: Time
  interval :: int64

text \<open>The loop over \<open>aggregations\<close>: the third argument is the variable \<open>aggregation\<close>
  (initially \<open>0\<close>), assigned at the first entry within the budget, where the loop breaks.\<close>

fun selectAggregation :: "int64 \<Rightarrow> int64 list \<Rightarrow> int64 \<Rightarrow> failure + int64" where
  "selectAggregation scope [] aggregation = Inr aggregation"
| "selectAggregation scope (v # vs) aggregation =
     andThen (quo64 scope v) (\<lambda>q.
       if sint q \<le> sint maxNumberOfPoints then Inr v
       else selectAggregation scope vs aggregation)"

text \<open>What follows the parsing of \<open>start\<close> and \<open>end\<close>, the same in both versions of the
  server: the range check, the choice of the interval, the result.\<close>

definition rangeArgs :: "Time \<Rightarrow> Time \<Rightarrow> failure + queryArgs" where
  "rangeArgs x y =
     (if After x y then Inl (Error ''range is not valid'')
      else (let scope = Unix y - Unix x
            in andThen (selectAggregation scope aggregations 0) (\<lambda>aggregation.
                 if aggregation = 0 then Inl (Error ''range is too large'')
                 else Inr \<lparr>start = x, end' = y, interval = aggregation * Second\<rparr>)))"

text \<open>The server with the user interface reads \<open>start\<close> and \<open>end\<close> as seconds since the
  epoch and rounds \<open>start\<close> with \<open>ceilInt64\<close>.\<close>

definition newQueryArgs :: "string \<Rightarrow> string \<Rightarrow> failure + queryArgs" where
  "newQueryArgs s e =
     (case Atoi s of
        Inl err \<Rightarrow> Inl (Error ''error parsing start date'')
      | Inr v \<Rightarrow>
          andThen (ceilInt64 v sequenceFrequency) (\<lambda>c.
            let x = time_Unix c
            in (case Atoi e of
                  Inl err \<Rightarrow> Inl (Error ''error parsing end date'')
                | Inr v' \<Rightarrow> (let y = time_Unix v' in rangeArgs x y))))"

text \<open>The server of \<open>cmd/server/main.go\<close> reads them with \<open>time.Parse(maskTime, _)\<close>, which
  is taken as the parameter \<open>parse\<close> (\<open>None\<close> for an error), and does not round.\<close>

definition newQueryArgs_cmd ::
  "(string \<Rightarrow> string \<Rightarrow> Time option) \<Rightarrow> string \<Rightarrow> string \<Rightarrow> failure + queryArgs" where
  "newQueryArgs_cmd parse s e =
     (case parse maskTime s of
        None \<Rightarrow> Inl (Error ''error parsing start date'')
      | Some x \<Rightarrow>
          (case parse maskTime e of
             None \<Rightarrow> Inl (Error ''error parsing end date'')
           | Some y \<Rightarrow> rangeArgs x y))"

subsection \<open>\<open>handlerQuery\<close>\<close>

text \<open>\<open>int(args.interval.Seconds())\<close> of a whole number of seconds.\<close>

definition intervalSeconds :: "int64 \<Rightarrow> int" where
  "intervalSeconds d = sint d sdiv sint Second"

definition rowsMessage :: "nat \<Rightarrow> int64 \<Rightarrow> string" where
  "rowsMessage n d =
     fmt_d (int n) @ '' row(s) returned (interval '' @ fmt_d (intervalSeconds d) @ ''s)''"

definition handlerQuery ::
  "('s, 'q) Store \<Rightarrow> Request \<Rightarrow> ('s, 'f) world \<Rightarrow> failure + Response \<times> ('s, 'f) world" where
  "handlerQuery st r w =
     (if Method r \<noteq> ''GET''
      then Inr (writeResponse 400 statusError ''method is not allowed'' None, w)
      else (let key = FormValue r ''key''
            in (case newQueryArgs (FormValue r ''start'') (FormValue r ''end'') of
                  Inl (Panic p) \<Rightarrow> Inl (Panic p)
                | Inl (Error err) \<Rightarrow> Inr (writeResponse 400 statusError err None, w)
                | Inr args \<Rightarrow>
                    (let w1 = called (CallGet key) w
                     in if \<not> Get st (store w1) key
                        then Inr (writeResponse 400 statusError ''key does not exist'' None, w1)
                        else (let w2 = called (CallQuery key (start args) (end' args) (interval args)) w1
                              in (case Query st (store w2) key (start args) (end' args) (interval args) of
                                    Inl err \<Rightarrow>
                                      Inr (writeResponse 500 statusError ''an unexpected error occurred'' None,
                                           logPrint (''error executing query: '' @ err) w2)
                                  | Inr qs \<Rightarrow>
                                      Inr (writeResponse 200 statusOK
                                             (rowsMessage (Rows st qs) (interval args))
                                             (Some (Serialize st qs [])), w2)))))))"

definition handlerQuery_cmd ::
  "(string \<Rightarrow> string \<Rightarrow> Time option) \<Rightarrow> ('s, 'q) Store \<Rightarrow> Request \<Rightarrow> ('s, 'f) world
     \<Rightarrow> failure + Response \<times> ('s, 'f) world" where
  "handlerQuery_cmd parse st r w =
     (if Method r \<noteq> ''GET''
      then Inr (writeResponse 400 statusError ''method is not allowed'' None, w)
      else (let key = FormValue r ''key''
            in (case newQueryArgs_cmd parse (FormValue r ''start'') (FormValue r ''end'') of
                  Inl (Panic p) \<Rightarrow> Inl (Panic p)
                | Inl (Error err) \<Rightarrow> Inr (writeResponse 400 statusError err None, w)
                | Inr args \<Rightarrow>
                    (let w2 = called (CallQuery key (start args) (end' args) (interval args)) w
                     in (case Query st (store w2) key (start args) (end' args) (interval args) of
                           Inl err \<Rightarrow>
                             Inr (writeResponse 500 statusError ''error executing query'' None,
                                  logPrint (''error executing query: '' @ err) w2)
                         | Inr qs \<Rightarrow>
                             Inr (writeResponse 200 statusOK
                                    (rowsMessage (Rows st qs) (interval args))
                                    (Some (Serialize st qs maskTime)), w2))))))"

section \<open>Persistence\<close>

text \<open>\<open>os.WriteFile(f, buf, 0660)\<close> is the parameter \<open>writeFile\<close>: it returns the error
  (\<open>None\<close> for \<open>nil\<close>) and the disk it leaves.\<close>

definition dump ::
  "('s, 'q) Store \<Rightarrow> (string \<Rightarrow> string \<Rightarrow> 'f \<Rightarrow> string option \<times> 'f) \<Rightarrow> string
     \<Rightarrow> ('s, 'f) world \<Rightarrow> ('s, 'f) world" where
  "dump st writeFile f w =
     (let w1 = called CallDump w
      in (case Dump st (store w1) of
            Inl err \<Rightarrow> logPrint (''error dumping store: '' @ err) w1
          | Inr buf \<Rightarrow>
              (let (err, d) = writeFile f buf (disk w1); w2 = w1\<lparr>disk := d\<rparr>
               in (case err of
                     Some e \<Rightarrow> logPrint (''error writing file: '' @ e) w2
                   | None \<Rightarrow>
                       logPrint (''writing store to file ('' @ fmt_d (int (length buf)) @ '' bytes)'') w2))))"

section \<open>Inserts\<close>

subsection \<open>The statement grammar\<close>

text \<open>
  \<open>validStatement\<close> is \<^verbatim>\<open>^(\w+) ([012])(?: (\d+))?$\<close> in \<open>cmd/server/main.go\<close> and the same
  expression without the capturing groups in the server with the user interface.  A line
  is one piece of \<open>bytes.Split\<close>, so that \<open>$\<close> is the end of the line; \<open>\w\<close> and \<open>\d\<close> are
  the ASCII classes.  Since a space is not a word character, the key of a matching line is
  its longest prefix of word characters, and the match is unique.

  \<open>validStatement_FindSubmatch\<close> returns \<open>None\<close> for \<open>nil\<close> and otherwise the whole match
  and the three groups, the last one empty when the timestamp is absent.
\<close>

definition validStatement_FindSubmatch :: "string \<Rightarrow> string list option" where
  "validStatement_FindSubmatch line =
     (let key = takeWhile isWordChar line; rest = dropWhile isWordChar line
      in if key = [] then None
         else (case rest of
                 [] \<Rightarrow> None
               | [sp] \<Rightarrow> None
               | sp # d # ts \<Rightarrow>
                   if sp = CHR '' '' \<and> d \<in> set ''012''
                   then (case ts of
                           [] \<Rightarrow> Some [line, key, [d], []]
                         | sp' # digits \<Rightarrow>
                             if sp' = CHR '' '' \<and> digits \<noteq> [] \<and> list_all isDigit digits
                             then Some [line, key, [d], digits]
                             else None)
                   else None))"

definition validStatement_Match :: "string \<Rightarrow> bool" where
  "validStatement_Match line =
     (takeWhile isWordChar line \<noteq> [] \<and>
      (case dropWhile isWordChar line of
         [] \<Rightarrow> False
       | [sp] \<Rightarrow> False
       | sp # d # ts \<Rightarrow>
           sp = CHR '' '' \<and> d \<in> set ''012'' \<and>
           (case ts of
              [] \<Rightarrow> True
            | sp' # digits \<Rightarrow> sp' = CHR '' '' \<and> digits \<noteq> [] \<and> list_all isDigit digits)))"

subsection \<open>From a line to a statement\<close>

text \<open>The \<open>switch\<close> on the state digit, with its \<open>default\<close> branch.\<close>

definition decodeValue :: "char \<Rightarrow> failure + State" where
  "decodeValue c =
     (if c = CHR ''0'' then Inr StateInactive
      else if c = CHR ''1'' then Inr StateActive
      else if c = CHR ''2'' then Inr StateUnknown
      else Inl (Panic ''poor validation panic''))"

text \<open>The body of the \<open>if\<close> that reads an explicit timestamp: the pair of
  \<open>valueTimestamp\<close> and \<open>sequenceTimestamp\<close>.\<close>

definition explicitTimestamps :: "string \<Rightarrow> failure + Time \<times> Time" where
  "explicitTimestamps ts =
     (case Atoi ts of
        Inl err \<Rightarrow> Inl (Panic ''poor validation panic'')
      | Inr x \<Rightarrow>
          (let valueTimestamp = time_Unix x
           in Inr (valueTimestamp, Truncate valueTimestamp sequenceFrequency)))"

definition newStatement :: "string \<Rightarrow> Time \<Rightarrow> State \<Rightarrow> Time \<Rightarrow> Statement" where
  "newStatement key valueTimestamp v sequenceTimestamp =
     \<lparr>Key = key, Timestamp = valueTimestamp, Value = v, Type = StatementAdd,
      CreateIfNotExists = True, CreateWithTimestamp = sequenceTimestamp,
      CreateWithFrequency = 15\<rparr>"

text \<open>\<open>cmd/server/main.go\<close>: the statement of a match, read from the groups.\<close>

definition statementOfMatch :: "Time \<Rightarrow> Time \<Rightarrow> string list \<Rightarrow> failure + Statement" where
  "statementOfMatch defaultValueTimestamp defaultSequenceTimestamp match =
     andThen (index match 2) (\<lambda>m2.
     andThen (index m2 0) (\<lambda>c.
     andThen (decodeValue c) (\<lambda>v.
     andThen (index match 3) (\<lambda>m3.
     andThen (if 0 < length m3 then explicitTimestamps m3
              else Inr (defaultValueTimestamp, defaultSequenceTimestamp)) (\<lambda>(valueTimestamp, sequenceTimestamp).
     andThen (index match 1) (\<lambda>m1.
       Inr (newStatement m1 valueTimestamp v sequenceTimestamp)))))))"

text \<open>The server with the user interface: the statement of a line that matched, read
  again by byte offsets from the first space.\<close>

definition statementOfLine :: "Time \<Rightarrow> Time \<Rightarrow> string \<Rightarrow> failure + Statement" where
  "statementOfLine defaultValueTimestamp defaultSequenceTimestamp line =
     (let p = IndexByte line (CHR '' '')
      in andThen (index line (p + 1)) (\<lambda>c.
         andThen (decodeValue c) (\<lambda>v.
         andThen (if p + 2 < int (length line)
                  then andThen (sliceFrom line (p + 3)) explicitTimestamps
                  else Inr (defaultValueTimestamp, defaultSequenceTimestamp)) (\<lambda>(valueTimestamp, sequenceTimestamp).
         andThen (sliceTo line p) (\<lambda>key.
           Inr (newStatement key valueTimestamp v sequenceTimestamp))))))"

subsection \<open>\<open>handlerInsert\<close> of \<open>cmd/server/main.go\<close>\<close>

text \<open>The loop over the lines; \<open>i\<close> is the index of the first remaining line, the other
  arguments are the variables \<open>statements\<close>, \<open>indexMapping\<close>, \<open>skipped\<close> and the log.\<close>

fun parseLines_cmd ::
  "Time \<Rightarrow> Time \<Rightarrow> string list \<Rightarrow> int \<Rightarrow> Statement list \<Rightarrow> int list \<Rightarrow> int \<Rightarrow> string list
     \<Rightarrow> failure + Statement list \<times> int list \<times> int \<times> string list" where
  "parseLines_cmd dv ds [] i statements indexMapping skipped lg =
     Inr (statements, indexMapping, skipped, lg)"
| "parseLines_cmd dv ds (line # rest) i statements indexMapping skipped lg =
     (case validStatement_FindSubmatch line of
        None \<Rightarrow>
          parseLines_cmd dv ds rest (i + 1) statements indexMapping (skipped + 1)
            (lg @ [''error parsing statement '' @ fmt_d (i + 1)])
      | Some match \<Rightarrow>
          (case statementOfMatch dv ds match of
             Inl p \<Rightarrow> Inl p
           | Inr s \<Rightarrow>
               parseLines_cmd dv ds rest (i + 1) (statements @ [s]) (indexMapping @ [i])
                 skipped lg))"

text \<open>The loop over \<open>result.ErrorVars()\<close>.\<close>

fun countErrors_cmd ::
  "string option list \<Rightarrow> int \<Rightarrow> int list \<Rightarrow> int \<Rightarrow> string list \<Rightarrow> failure + int \<times> string list" where
  "countErrors_cmd [] i indexMapping skipped lg = Inr (skipped, lg)"
| "countErrors_cmd (err # errs) i indexMapping skipped lg =
     (case err of
        None \<Rightarrow> countErrors_cmd errs (i + 1) indexMapping skipped lg
      | Some e \<Rightarrow>
          (case index indexMapping i of
             Inl p \<Rightarrow> Inl p
           | Inr k \<Rightarrow>
               countErrors_cmd errs (i + 1) indexMapping (skipped + 1)
                 (lg @ [''error executing statement '' @ fmt_d (k + 1) @ '': '' @ e])))"

definition processed :: "int \<Rightarrow> int \<Rightarrow> string" where
  "processed x y = ''processed '' @ fmt_d x @ ''/'' @ fmt_d y @ '' statement(s)''"

definition handlerInsert_cmd ::
  "('s, 'q) Store \<Rightarrow> Time \<Rightarrow> Request \<Rightarrow> ('s, 'f) world \<Rightarrow> failure + Response \<times> ('s, 'f) world" where
  "handlerInsert_cmd st now r w =
     (if Method r \<noteq> ''POST''
      then Inr (writeResponse 405 statusError ''method not allowed'' None, w)
      else (case Body r of
              Inl err \<Rightarrow>
                Inr (writeResponse 400 statusError ''error reading request body'' None,
                     logPrint (''error reading request body: '' @ err) w)
            | Inr body \<Rightarrow>
                (let defaultValueTimestamp = now;
                     defaultSequenceTimestamp = Truncate defaultValueTimestamp sequenceFrequency;
                     lines = bytes_Split body
                 in (case parseLines_cmd defaultValueTimestamp defaultSequenceTimestamp lines 0 [] [] 0 (logs w) of
                       Inl p \<Rightarrow> Inl p
                     | Inr (statements, indexMapping, skipped, lg) \<Rightarrow>
                         (let w1 = called (CallBatch statements) (w\<lparr>logs := lg\<rparr>);
                              (result, s') = Batch st (store w1) statements;
                              w2 = w1\<lparr>store := s'\<rparr>
                          in (case (if HasErrors result
                                    then countErrors_cmd (ErrorVars result) 0 indexMapping skipped (logs w2)
                                    else Inr (skipped, logs w2)) of
                                Inl p \<Rightarrow> Inl p
                              | Inr (skipped', lg') \<Rightarrow>
                                  (let status = (if 0 < skipped' then statusWarning else statusOK);
                                       n = int (length lines)
                                   in Inr (writeResponse 200 status (processed (n - skipped') n) None,
                                           w2\<lparr>logs := lg'\<rparr>))))))))"

subsection \<open>\<open>handlerInsert\<close> of the server with the user interface\<close>

text \<open>The first loop validates the lines and fills \<open>mapping\<close>, a slice as long as
  \<open>lines\<close>, with the indices of the matching lines; \<open>n\<close> counts them.\<close>

fun validateLines ::
  "string list \<Rightarrow> int \<Rightarrow> int list \<Rightarrow> int \<Rightarrow> string list \<Rightarrow> failure + int list \<times> int \<times> string list" where
  "validateLines [] i mapping n lg = Inr (mapping, n, lg)"
| "validateLines (line # rest) i mapping n lg =
     (if \<not> validStatement_Match line
      then validateLines rest (i + 1) mapping n
             (lg @ [''error parsing statement '' @ fmt_d (i + 1)])
      else (case assign mapping n i of
              Inl p \<Rightarrow> Inl p
            | Inr mapping' \<Rightarrow> validateLines rest (i + 1) mapping' (n + 1) lg))"

text \<open>The second loop, \<open>for i := 0; i < n; i++\<close>, fills \<open>statements\<close> (made with length
  \<open>n\<close>) in the order of \<open>i\<close>; the last argument holds the entries filled so far.\<close>

function buildStatements ::
  "Time \<Rightarrow> Time \<Rightarrow> string list \<Rightarrow> int list \<Rightarrow> int \<Rightarrow> int \<Rightarrow> Statement list
     \<Rightarrow> failure + Statement list" where
  "buildStatements dv ds lines mapping n i statements =
     (if i < n
      then (case index mapping i of
              Inl p \<Rightarrow> Inl p
            | Inr k \<Rightarrow>
                (case index lines k of
                   Inl p \<Rightarrow> Inl p
                 | Inr line \<Rightarrow>
                     (case statementOfLine dv ds line of
                        Inl p \<Rightarrow> Inl p
                      | Inr s \<Rightarrow>
                          buildStatements dv ds lines mapping n (i + 1) (statements @ [s]))))
      else Inr statements)"
  by pat_completeness auto
termination
  by (relation "measure (\<lambda>(dv, ds, lines, mapping, n, i, statements). nat (n - i))") auto

declare buildStatements.simps [simp del]

fun countErrors ::
  "string option list \<Rightarrow> int \<Rightarrow> int list \<Rightarrow> int \<Rightarrow> string list \<Rightarrow> failure + int \<times> string list" where
  "countErrors [] i mapping n lg = Inr (n, lg)"
| "countErrors (err # errs) i mapping n lg =
     (case err of
        None \<Rightarrow> countErrors errs (i + 1) mapping n lg
      | Some e \<Rightarrow>
          (case index mapping i of
             Inl p \<Rightarrow> Inl p
           | Inr k \<Rightarrow>
               countErrors errs (i + 1) mapping (n - 1)
                 (lg @ [''error executing statement '' @ fmt_d (k + 1) @ '': '' @ e])))"

definition handlerInsert ::
  "('s, 'q) Store \<Rightarrow> Time \<Rightarrow> Request \<Rightarrow> ('s, 'f) world \<Rightarrow> failure + Response \<times> ('s, 'f) world" where
  "handlerInsert st now r w =
     (if Method r \<noteq> ''POST''
      then Inr (writeResponse 405 statusError ''method not allowed'' None, w)
      else (case Body r of
              Inl err \<Rightarrow>
                Inr (writeResponse 400 statusError ''error reading request body'' None,
                     logPrint (''error reading request body: '' @ err) w)
            | Inr body \<Rightarrow>
                (let defaultValueTimestamp = now;
                     defaultSequenceTimestamp = Truncate defaultValueTimestamp sequenceFrequency;
                     lines = bytes_Split body
                 in (case validateLines lines 0 (replicate (length lines) 0) 0 (logs w) of
                       Inl p \<Rightarrow> Inl p
                     | Inr (mapping, n, lg) \<Rightarrow>
                         (case buildStatements defaultValueTimestamp defaultSequenceTimestamp
                                 lines mapping n 0 [] of
                            Inl p \<Rightarrow> Inl p
                          | Inr statements \<Rightarrow>
                              (let w1 = called (CallBatch statements) (w\<lparr>logs := lg\<rparr>);
                                   (result, s') = Batch st (store w1) statements;
                                   w2 = w1\<lparr>store := s'\<rparr>
                               in (case (if HasErrors result
                                         then countErrors (ErrorVars result) 0 mapping n (logs w2)
                                         else Inr (n, logs w2)) of
                                     Inl p \<Rightarrow> Inl p
                                   | Inr (n', lg') \<Rightarrow>
                                       (let status = (if n' \<noteq> int (length lines) then statusWarning
                                                      else statusOK)
                                        in Inr (writeResponse 200 status
                                                  (processed n' (int (length lines))) None,
                                                w2\<lparr>logs := lg'\<rparr>)))))))))"

section \<open>Notions for the properties of an insert\<close>

text \<open>
  The statements of the matching lines of a body, in order (\<open>statementsOf\<close>; the default
  timestamps are \<open>now\<close> and its truncation); the number of statements a batch result
  reports as failed (\<open>rejectedBy\<close>); the indices of the matching lines, counted from \<open>i\<close>
  (\<open>matchedIndices\<close>); and the bodies in which every explicit timestamp of a matching line
  is an \<open>int64\<close>, that is below \<open>2^63\<close> (\<open>fitting\<close>).
\<close>

definition statementsOf :: "Time \<Rightarrow> string list \<Rightarrow> Statement list" where
  "statementsOf now lines =
     concat (map (\<lambda>l. case statementOfLine now (Truncate now sequenceFrequency) l of
                         Inl p \<Rightarrow> []
                       | Inr s \<Rightarrow> [s])
               (filter validStatement_Match lines))"

definition rejectedBy :: "BatchResult \<Rightarrow> int" where
  "rejectedBy result =
     (if HasErrors result then int (length (filter (\<lambda>e. e \<noteq> None) (ErrorVars result))) else 0)"

fun matchedIndices :: "int \<Rightarrow> string list \<Rightarrow> int list" where
  "matchedIndices i [] = []"
| "matchedIndices i (l # ls) =
     (if validStatement_Match l then i # matchedIndices (i + 1) ls
      else matchedIndices (i + 1) ls)"

definition fitting :: "string list \<Rightarrow> bool" where
  "fitting lines =
     list_all (\<lambda>l. case validStatement_FindSubmatch l of
                      None \<Rightarrow> True
                    | Some m \<Rightarrow> digitsValue (m ! 3) < 2 ^ 63) lines"

section \<open>Stores and disks for the examples\<close>

text \<open>
  A store that holds the set of its keys, accepts every statement of a batch and creates
  the keys it has not seen, has no rows to return, and serializes to the empty buffer; a
  store whose serialization fails; a store that rejects every statement for the key
  \<open>k2\<close>.  The disk of the examples maps a path to its content.
\<close>

definition keysStore :: "(string list, unit) Store" where
  "keysStore =
     \<lparr>Batch = (\<lambda>s xs. (\<lparr>HasErrors = False, ErrorVars = []\<rparr>, s @ map Key xs)),
      Get = (\<lambda>s k. k \<in> set s),
      Query = (\<lambda>s k x y i. if k \<in> set s then Inr () else Inl ''key does not exist''),
      Dump = (\<lambda>s. Inr []),
      Rows = (\<lambda>q. 0),
      Serialize = (\<lambda>q mask. ''[]'')\<rparr>"

definition brokenStore :: "(string list, unit) Store" where
  "brokenStore = keysStore\<lparr>Dump := (\<lambda>s. Inl ''encoding failed'')\<rparr>"

definition strictStore :: "(string list, unit) Store" where
  "strictStore =
     keysStore\<lparr>Batch := (\<lambda>s xs.
       (\<lparr>HasErrors = list_ex (\<lambda>x. Key x = ''k2'') xs,
         ErrorVars = map (\<lambda>x. if Key x = ''k2'' then Some ''rejected'' else None) xs\<rparr>, s))\<rparr>"

definition writeOK :: "string \<Rightarrow> string \<Rightarrow> (string \<Rightarrow> string option) \<Rightarrow> string option \<times> (string \<Rightarrow> string option)" where
  "writeOK f buf d = (None, d(f \<mapsto> buf))"

definition writeDenied :: "string \<Rightarrow> string \<Rightarrow> (string \<Rightarrow> string option) \<Rightarrow> string option \<times> (string \<Rightarrow> string option)" where
  "writeDenied f buf d = (Some ''permission denied'', d)"

definition emptyWorld :: "(string list, string \<Rightarrow> string option) world" where
  "emptyWorld = \<lparr>store = [], disk = Map.empty, calls = [], logs = []\<rparr>"

text \<open>Requests of the examples, and a \<open>time.Parse\<close> that knows three date-times of the
  day of the query in the older README: 2023-08-18 00:00:00 UTC is 1692316800 seconds after
  the epoch.\<close>

definition insertRequest :: "string \<Rightarrow> Request" where
  "insertRequest b = \<lparr>Method = ''POST'', Body = Inr b, FormValue = (\<lambda>k. [])\<rparr>"

definition queryRequest :: "string \<Rightarrow> string \<Rightarrow> string \<Rightarrow> Request" where
  "queryRequest k s e =
     \<lparr>Method = ''GET'', Body = Inr [],
      FormValue = (\<lambda>p. if p = ''key'' then k else if p = ''start'' then s
                        else if p = ''end'' then e else [])\<rparr>"

definition parseExample :: "string \<Rightarrow> string \<Rightarrow> Time option" where
  "parseExample layout s =
     (if layout = maskTime \<and> s = ''2023-08-18 00:00:00'' then Some (time_Unix 1692316800)
      else if layout = maskTime \<and> s = ''2023-08-18 00:00:07'' then Some (time_Unix 1692316807)
      else if layout = maskTime \<and> s = ''2023-08-18 23:59:59'' then Some (time_Unix 1692403199)
      else None)"

section \<open>Properties\<close>

lemma fitting_iff:
  "fitting lines \<longleftrightarrow>
     (\<forall>l \<in> set lines. \<forall>m. validStatement_FindSubmatch l = Some m \<longrightarrow> digitsValue (m ! 3) < 2 ^ 63)"
  by (auto simp: fitting_def list_all_iff split: option.splits)

subsection \<open>Arithmetic on \<open>int64\<close>\<close>

lemma sint_of_int_eq:
  "- (2 ^ 63) \<le> k \<Longrightarrow> k < 2 ^ 63 \<Longrightarrow> sint (word_of_int k :: int64) = k"
  by (simp add: sint_sbintrunc' signed_take_bit_int_eq_self)

lemma sint_range64: "- (2 ^ 63) \<le> sint (x :: int64) \<and> sint x < 2 ^ 63"
  using sint_ge [of x] sint_lt [of x] by simp

lemma smod_nonneg: "0 \<le> a \<Longrightarrow> 0 < s \<Longrightarrow> (a::int) smod s = a mod s"
  by (simp add: signed_modulo_int_def sgn_if)

lemma least_multiple_above:
  fixes a s :: int
  assumes "0 < s" "a mod s \<noteq> 0"
  shows "s dvd a - a mod s + s" "a \<le> a - a mod s + s"
    "\<And>m. s dvd m \<Longrightarrow> a \<le> m \<Longrightarrow> a - a mod s + s \<le> m"
proof -
  show "s dvd a - a mod s + s"
    by (simp add: minus_mod_eq_mult_div)
  have "a mod s < s" using assms by simp
  then show "a \<le> a - a mod s + s" by simp
  fix m assume m: "s dvd m" "a \<le> m"
  then obtain k where k: "m = s * k" by (auto simp: dvd_def)
  have "0 < a mod s" using assms by (simp add: less_le)
  have "s * (a div s) < s * k"
    using m(2) k \<open>0 < a mod s\<close> minus_mod_eq_mult_div [of a s] by linarith
  then have "a div s < k" using assms(1) by (simp add: mult_less_cancel_left_pos)
  then have "a div s + 1 \<le> k" by simp
  then have "s * (a div s + 1) \<le> s * k" using assms(1) by (simp add: mult_le_cancel_left_pos)
  then have "s * (a div s) + s \<le> m" using k by (simp add: algebra_simps)
  then show "a - a mod s + s \<le> m"
    using minus_mod_eq_mult_div [of a s] by linarith
qed

subsection \<open>\<open>ceilInt64\<close>\<close>

text \<open>
  Claim C10, as amended.  For every non-negative \<open>x\<close> and every positive \<open>step\<close> such that
  some multiple of \<open>step\<close> that is at least \<open>x\<close> is an \<open>int64\<close>, \<open>ceilInt64 x step\<close>
  returns (it does not panic) the smallest multiple of \<open>step\<close> that is greater than or
  equal to \<open>x\<close>.  The values are read as two's complement integers (\<open>sint\<close>); the least
  multiple is least among all integers, not only among the \<open>int64\<close>.
\<close>

theorem ceilInt64_least_multiple:
  assumes x: "0 \<le> sint x" and s: "0 < sint step"
    and fits: "\<exists>m. sint step dvd m \<and> sint x \<le> m \<and> m < 2 ^ 63"
  shows "\<exists>c. ceilInt64 x step = Inr c \<and> sint step dvd sint c \<and> sint x \<le> sint c \<and>
           (\<forall>m. sint step dvd m \<and> sint x \<le> m \<longrightarrow> sint c \<le> m)"
proof -
  let ?a = "sint x" and ?s = "sint step"
  have nz: "step \<noteq> 0" using s by auto
  have rng: "0 \<le> ?a mod ?s" "?a mod ?s < ?s" using s by simp_all
  have s63: "?s < 2 ^ 63" using sint_range64 [of step] by simp
  have r: "rem64 x step = Inr (word_of_int (?a mod ?s))"
    using nz x s by (simp add: rem64_def smod_nonneg)
  have sr: "sint (word_of_int (?a mod ?s) :: int64) = ?a mod ?s"
    using rng s63 by (intro sint_of_int_eq) linarith+
  show ?thesis
  proof (cases "?a mod ?s = 0")
    case True
    then have "(word_of_int (?a mod ?s) :: int64) = 0" by simp
    then have "ceilInt64 x step = Inr x" using r by (simp add: ceilInt64_def andThen_def)
    moreover have "?s dvd ?a" using True by (simp add: dvd_eq_mod_eq_0)
    ultimately show ?thesis by simp
  next
    case False
    then have rnz: "(word_of_int (?a mod ?s) :: int64) \<noteq> 0"
      using sr by (metis sint_0)
    let ?c = "?a - ?a mod ?s + ?s"
    from fits obtain m where m: "?s dvd m" "?a \<le> m" "m < 2 ^ 63" by blast
    have cm: "?c \<le> m" using least_multiple_above(3) [OF s False m(1) m(2)] .
    have cge: "?a \<le> ?c" using least_multiple_above(2) [OF s False] .
    have c: "ceilInt64 x step = Inr (x + step - word_of_int (?a mod ?s))"
      using r rnz by (simp add: ceilInt64_def andThen_def)
    have eq: "x + step - word_of_int (?a mod ?s) = (word_of_int ?c :: int64)"
      by simp
    have "sint (word_of_int ?c :: int64) = ?c"
      using cm m(3) cge x by (intro sint_of_int_eq) linarith+
    then have sc: "sint (x + step - word_of_int (?a mod ?s)) = ?c"
      by (simp only: eq)
    show ?thesis
      using c sc least_multiple_above [OF s False] by auto
  qed
qed

text \<open>The theorem at \<open>x = 7\<close>, \<open>step = 15\<close>.\<close>

theorem ceilInt64_least_multiple_witness:
  "0 \<le> sint (7 :: int64) \<and> 0 < sint (15 :: int64) \<and>
   (\<exists>c. ceilInt64 7 15 = Inr c \<and> sint (15 :: int64) dvd sint c \<and> sint (7 :: int64) \<le> sint c \<and>
      (\<forall>m. sint (15 :: int64) dvd m \<and> sint (7 :: int64) \<le> m \<longrightarrow> sint c \<le> m))"
proof -
  have a: "0 \<le> sint (7 :: int64)" by simp
  have b: "0 < sint (15 :: int64)" by simp
  have c: "\<exists>m. sint (15 :: int64) dvd m \<and> sint (7 :: int64) \<le> m \<and> m < 2 ^ 63"
    by (rule exI [of _ 15]) simp
  show ?thesis using a b ceilInt64_least_multiple [OF a b c] by blast
qed

text \<open>Claim C10 as stated fails at the largest \<open>int64\<close>, which \<open>strconv.Atoi\<close> accepts as
  a start of a query: \<open>x + step - r\<close> wraps around and the result is below \<open>x\<close>.\<close>

theorem ceilInt64_wraps_counterexample:
  "\<not> (\<exists>c. ceilInt64 9223372036854775807 15 = Inr c \<and>
          sint (9223372036854775807 :: int64) \<le> sint c)"
  by (simp add: ceilInt64_def rem64_def andThen_def signed_modulo_int_def)

subsection \<open>The choice of the aggregation interval\<close>

lemma sdiv_pos_divisor:
  fixes a b :: int
  assumes "0 < b"
  shows "a sdiv b = (if 0 \<le> a then a div b else - ((- a) div b))"
  using assms by (auto simp: signed_divide_int_def sgn_if)

lemma int_div_le_self: "0 \<le> a \<Longrightarrow> 0 < b \<Longrightarrow> a div b \<le> (a::int)"
  using zdiv_mono2 [of a 1 b] by simp

lemma sdiv_pos_divisor_range:
  fixes a b :: int
  assumes "0 < b" "- (2 ^ 63) \<le> a" "a < 2 ^ 63"
  shows "- (2 ^ 63) \<le> a sdiv b \<and> a sdiv b < 2 ^ 63"
proof (cases "0 \<le> a")
  case True
  then have "a div b \<le> a" "0 \<le> a div b" using assms(1)
    by (simp_all add: int_div_le_self pos_imp_zdiv_nonneg_iff)
  then show ?thesis using True assms by (simp add: sdiv_pos_divisor)
next
  case False
  then have "(- a) div b \<le> - a" "0 \<le> (- a) div b" using assms(1)
    by (simp_all add: int_div_le_self pos_imp_zdiv_nonneg_iff)
  then show ?thesis using False assms by (simp add: sdiv_pos_divisor)
qed

lemma sint_quo64:
  assumes "0 < sint v"
  shows "quo64 scope v = Inr (word_of_int (sint scope sdiv sint v))"
    and "sint (word_of_int (sint scope sdiv sint v) :: int64) = sint scope sdiv sint v"
proof -
  have "v \<noteq> 0" using assms by auto
  then show "quo64 scope v = Inr (word_of_int (sint scope sdiv sint v))"
    by (simp add: quo64_def)
  show "sint (word_of_int (sint scope sdiv sint v) :: int64) = sint scope sdiv sint v"
    using sdiv_pos_divisor_range [OF assms, of "sint scope"] sint_range64 [of scope]
    by (intro sint_of_int_eq) simp_all
qed

lemma selectAggregation_find:
  assumes "\<forall>v \<in> set vs. 0 < sint v"
  shows "selectAggregation scope vs a =
           Inr (case find (\<lambda>v. sint scope sdiv sint v \<le> 380) vs of None \<Rightarrow> a | Some v \<Rightarrow> v)"
  using assms
proof (induction vs)
  case Nil
  then show ?case by simp
next
  case (Cons v vs)
  then have v: "0 < sint v" by simp
  show ?case
    using Cons sint_quo64 [OF v, of scope]
    by (simp add: andThen_def maxNumberOfPoints_def)
qed

lemma aggregations_positive: "\<forall>v \<in> set aggregations. 0 < sint v"
  by (simp add: aggregations_def)

lemma aggregations_nonzero: "v \<in> set aggregations \<Longrightarrow> v \<noteq> 0"
  using aggregations_positive by auto

lemma rangeArgs_first_interval:
  assumes "\<not> After x y"
  shows "rangeArgs x y =
           (case find (\<lambda>v. sint (Unix y - Unix x) sdiv sint v \<le> 380) aggregations of
              None \<Rightarrow> Inl (Error ''range is too large'')
            | Some v \<Rightarrow> Inr \<lparr>start = x, end' = y, interval = v * Second\<rparr>)"
proof (cases "find (\<lambda>v. sint (Unix y - Unix x) sdiv sint v \<le> 380) aggregations")
  case None
  then show ?thesis
    using assms selectAggregation_find [OF aggregations_positive, of "Unix y - Unix x" 0]
    by (simp add: rangeArgs_def andThen_def)
next
  case (Some v)
  then have "v \<in> set aggregations" by (auto simp: find_Some_iff)
  then have "v \<noteq> 0" by (rule aggregations_nonzero)
  then show ?thesis
    using Some assms selectAggregation_find [OF aggregations_positive, of "Unix y - Unix x" 0]
    by (simp add: rangeArgs_def andThen_def)
qed







lemma sint_plus_unixToInternal:
  assumes "sint c < 2 ^ 62"
  shows "sint (c + unixToInternal) = sint c + 62135596800"
proof -
  have "c + unixToInternal = word_of_int (sint c + 62135596800)"
    by (simp add: unixToInternal_def)
  moreover have "sint (word_of_int (sint c + 62135596800) :: int64) = sint c + 62135596800"
    using assms sint_range64 [of c] by (intro sint_of_int_eq) simp_all
  ultimately show ?thesis by simp
qed

lemma Unix_time_Unix [simp]: "Unix (time_Unix c) = c"
  by (simp add: Unix_def time_Unix_def)

lemma After_time_Unix:
  assumes "sint c < 2 ^ 62" "sint d < 2 ^ 62"
  shows "After (time_Unix c) (time_Unix d) \<longleftrightarrow> sint d < sint c"
  using assms by (simp add: After_def time_Unix_def sint_plus_unixToInternal)


lemma sdiv_le_380_iff:
  fixes d v :: int
  assumes "0 \<le> d" "0 < v"
  shows "d sdiv v \<le> 380 \<longleftrightarrow> d < 381 * v"
proof -
  have e: "d sdiv v = d div v" using assms by (simp add: sdiv_pos_divisor)
  have m: "0 \<le> d mod v" "d mod v < v" using assms by simp_all
  have d: "d = v * (d div v) + d mod v" by simp
  show ?thesis
  proof
    assume "d sdiv v \<le> 380"
    then have "d div v \<le> 380" using e by simp
    then have "v * (d div v) \<le> v * 380" using assms(2) by (simp add: mult_left_mono)
    then show "d < 381 * v" using d m by linarith
  next
    assume h: "d < 381 * v"
    have "\<not> 381 \<le> d div v"
    proof
      assume "381 \<le> d div v"
      then have "v * 381 \<le> v * (d div v)" using assms(2) by (simp add: mult_left_mono)
      then show False using d m h by linarith
    qed
    then show "d sdiv v \<le> 380" using e by simp
  qed
qed

lemma scope_is_length:
  assumes "\<not> After x y" and "sint (sec y) - sint (sec x) < 2 ^ 63"
  shows "sint (Unix y - Unix x) = sint (sec y) - sint (sec x)"
    and "0 \<le> sint (sec y) - sint (sec x)"
proof -
  show nn: "0 \<le> sint (sec y) - sint (sec x)" using assms(1) by (simp add: After_def)
  have "Unix y - Unix x = word_of_int (sint (sec y) - sint (sec x))"
    by (simp add: Unix_def)
  moreover have "sint (word_of_int (sint (sec y) - sint (sec x)) :: int64)
                   = sint (sec y) - sint (sec x)"
    using nn assms(2) by (intro sint_of_int_eq) simp_all
  ultimately show "sint (Unix y - Unix x) = sint (sec y) - sint (sec x)" by simp
qed

text \<open>
  Claim C1, as amended.  For every query range with \<open>start \<le> end\<close> (\<open>x\<close> is not after
  \<open>y\<close>) whose length, the number of seconds from \<open>x\<close> to \<open>y\<close>, is an \<open>int64\<close> (it is
  below \<open>2^63\<close>), the selector returns the first entry \<open>v\<close> of the ascending table
  \<open>aggregations\<close> with \<open>length / v \<le> 380\<close> under truncated integer division, and fails
  with "range is too large" when no entry satisfies the bound, that is exactly when the
  length is at least 32918400 seconds.  For such a range the \<open>scope\<close> of the code,
  \<open>y.Unix() - x.Unix()\<close>, is the length.  A range of 0 to 5714 seconds yields the interval
  15 (so do 5700 and 5701 seconds, since \<open>5701 / 15 = 380\<close>), a range of 5715 to 11429
  seconds yields 30.
\<close>

theorem aggregation_first_fit:
  assumes na: "\<not> After x y" and fits: "sint (sec y) - sint (sec x) < 2 ^ 63"
  shows "rangeArgs x y =
           (case find (\<lambda>v. (sint (sec y) - sint (sec x)) sdiv sint v \<le> 380) aggregations of
              None \<Rightarrow> Inl (Error ''range is too large'')
            | Some v \<Rightarrow> Inr \<lparr>start = x, end' = y, interval = v * Second\<rparr>) \<and>
         0 \<le> sint (sec y) - sint (sec x) \<and>
         sint (Unix y - Unix x) = sint (sec y) - sint (sec x) \<and>
         (sint (sec y) - sint (sec x) \<le> 5714
            \<longrightarrow> rangeArgs x y = Inr \<lparr>start = x, end' = y, interval = 15 * Second\<rparr>) \<and>
         (5715 \<le> sint (sec y) - sint (sec x) \<and> sint (sec y) - sint (sec x) \<le> 11429
            \<longrightarrow> rangeArgs x y = Inr \<lparr>start = x, end' = y, interval = 30 * Second\<rparr>) \<and>
         (rangeArgs x y = Inl (Error ''range is too large'')
            \<longleftrightarrow> 32918400 \<le> sint (sec y) - sint (sec x))"
proof -
  let ?d = "sint (sec y) - sint (sec x)"
  note s = scope_is_length [OF na fits]
  have A: "rangeArgs x y =
           (case find (\<lambda>v. ?d sdiv sint v \<le> 380) aggregations of
              None \<Rightarrow> Inl (Error ''range is too large'')
            | Some v \<Rightarrow> Inr \<lparr>start = x, end' = y, interval = v * Second\<rparr>)"
    using rangeArgs_first_interval [OF na] unfolding s(1) .
  have B: "0 \<le> ?d" by (rule s(2))
  have C: "?d \<le> 5714
            \<longrightarrow> rangeArgs x y = Inr \<lparr>start = x, end' = y, interval = 15 * Second\<rparr>"
    using A B by (simp add: aggregations_def sdiv_le_380_iff)
  have D: "5715 \<le> ?d \<and> ?d \<le> 11429
            \<longrightarrow> rangeArgs x y = Inr \<lparr>start = x, end' = y, interval = 30 * Second\<rparr>"
    using A B by (simp add: aggregations_def sdiv_le_380_iff)
  have E: "rangeArgs x y = Inl (Error ''range is too large'') \<longleftrightarrow> 32918400 \<le> ?d"
    unfolding A using B by (simp add: aggregations_def sdiv_le_380_iff)
  show ?thesis by (intro conjI A B s(1) C D E)
qed

text \<open>The theorem at the ranges of 5700, 5715 and 33004800 seconds from the epoch.\<close>

theorem aggregation_first_fit_witness:
  "\<not> After (time_Unix 0) (time_Unix 5700) \<and>
   sint (sec (time_Unix 5700)) - sint (sec (time_Unix 0)) < 2 ^ 63 \<and>
   rangeArgs (time_Unix 0) (time_Unix 5700) =
     Inr \<lparr>start = time_Unix 0, end' = time_Unix 5700, interval = 15 * Second\<rparr> \<and>
   \<not> After (time_Unix 0) (time_Unix 5715) \<and>
   sint (sec (time_Unix 5715)) - sint (sec (time_Unix 0)) < 2 ^ 63 \<and>
   rangeArgs (time_Unix 0) (time_Unix 5715) =
     Inr \<lparr>start = time_Unix 0, end' = time_Unix 5715, interval = 30 * Second\<rparr> \<and>
   \<not> After (time_Unix 0) (time_Unix 33004800) \<and>
   sint (sec (time_Unix 33004800)) - sint (sec (time_Unix 0)) < 2 ^ 63 \<and>
   rangeArgs (time_Unix 0) (time_Unix 33004800) = Inl (Error ''range is too large'')"
proof -
  have a: "\<not> After (time_Unix 0) (time_Unix 5700)"
    by (simp add: After_def time_Unix_def unixToInternal_def)
  have b: "\<not> After (time_Unix 0) (time_Unix 5715)"
    by (simp add: After_def time_Unix_def unixToInternal_def)
  have c: "\<not> After (time_Unix 0) (time_Unix 33004800)"
    by (simp add: After_def time_Unix_def unixToInternal_def)
  have la: "sint (sec (time_Unix 5700)) - sint (sec (time_Unix 0)) = 5700"
    by (simp add: time_Unix_def unixToInternal_def)
  have lb: "sint (sec (time_Unix 5715)) - sint (sec (time_Unix 0)) = 5715"
    by (simp add: time_Unix_def unixToInternal_def)
  have lc: "sint (sec (time_Unix 33004800)) - sint (sec (time_Unix 0)) = 33004800"
    by (simp add: time_Unix_def unixToInternal_def)
  have fa: "sint (sec (time_Unix 5700)) - sint (sec (time_Unix 0)) < 2 ^ 63"
    unfolding la by simp
  have fb: "sint (sec (time_Unix 5715)) - sint (sec (time_Unix 0)) < 2 ^ 63"
    unfolding lb by simp
  have fc: "sint (sec (time_Unix 33004800)) - sint (sec (time_Unix 0)) < 2 ^ 63"
    unfolding lc by simp
  have d: "rangeArgs (time_Unix 0) (time_Unix 33004800) = Inl (Error ''range is too large'')"
    using aggregation_first_fit [OF c fc, THEN conjunct2, THEN conjunct2, THEN conjunct2,
        THEN conjunct2, THEN conjunct2] unfolding lc by simp
  have e: "rangeArgs (time_Unix 0) (time_Unix 5700) =
     Inr \<lparr>start = time_Unix 0, end' = time_Unix 5700, interval = 15 * Second\<rparr>"
    using aggregation_first_fit [OF a fa, THEN conjunct2, THEN conjunct2, THEN conjunct2,
        THEN conjunct1] unfolding la by simp
  have f: "rangeArgs (time_Unix 0) (time_Unix 5715) =
     Inr \<lparr>start = time_Unix 0, end' = time_Unix 5715, interval = 30 * Second\<rparr>"
    using aggregation_first_fit [OF b fb, THEN conjunct2, THEN conjunct2, THEN conjunct2,
        THEN conjunct2, THEN conjunct1] unfolding lb by simp
  show ?thesis
    by (intro conjI a b c fa fb fc d e f)
qed

text \<open>Claim C1 as stated fails at its own example: a range of 5701 seconds yields the
  interval 15, not 30.\<close>

theorem range_5701_counterexample:
  "newQueryArgs ''0'' ''5701'' =
     Inr \<lparr>start = time_Unix 0, end' = time_Unix 5701, interval = 15 * Second\<rparr> \<and>
   (15 * Second :: int64) \<noteq> 30 * Second"
  by (simp add: newQueryArgs_def Atoi_def Let_def isDigit_def digitsValue_def ceilInt64_def
      rem64_def andThen_def sequenceFrequency_def rangeArgs_def After_def time_Unix_def
      unixToInternal_def Unix_def quo64_def aggregations_def maxNumberOfPoints_def
      signed_divide_int_def signed_modulo_int_def Second_def)

text \<open>A range whose length is not an \<open>int64\<close>: from \<open>-9223372036854775800\<close> to \<open>100\<close> the
  subtraction \<open>y.Unix() - x.Unix()\<close> wraps around to a negative \<open>scope\<close>, and the selector
  returns the interval 15.\<close>

lemma wrapped_scope_example:
  "newQueryArgs ''-9223372036854775800'' ''100'' =
     Inr \<lparr>start = time_Unix (- 9223372036854775800), end' = time_Unix 100, interval = 15 * Second\<rparr>"
  by (simp add: newQueryArgs_def Atoi_def Let_def isDigit_def digitsValue_def ceilInt64_def
      rem64_def andThen_def sequenceFrequency_def rangeArgs_def After_def time_Unix_def
      unixToInternal_def Unix_def quo64_def aggregations_def maxNumberOfPoints_def
      signed_divide_int_def signed_modulo_int_def Second_def)

subsection \<open>The start of a query\<close>







text \<open>For a negative start that is not aligned, \<open>ceilInt64\<close> goes one grain past the
  next boundary: at \<open>start=-7\<close> the effective start is 15, although 0 is a boundary that
  is not earlier than \<open>-7\<close> (Go's remainder of \<open>-7\<close> by 15 is \<open>-7\<close>).\<close>

lemma negative_start_past_ceiling:
  "newQueryArgs ''-7'' ''100'' =
     Inr \<lparr>start = time_Unix 15, end' = time_Unix 100, interval = 15 * Second\<rparr> \<and>
   \<not> (\<forall>m. 15 dvd m \<and> - 7 \<le> m \<longrightarrow> sint (Unix (time_Unix 15)) \<le> m)"
proof -
  have a: "newQueryArgs ''-7'' ''100'' =
     Inr \<lparr>start = time_Unix 15, end' = time_Unix 100, interval = 15 * Second\<rparr>"
    by (simp add: newQueryArgs_def Atoi_def Let_def isDigit_def digitsValue_def ceilInt64_def
      rem64_def andThen_def sequenceFrequency_def rangeArgs_def After_def time_Unix_def
      unixToInternal_def Unix_def quo64_def aggregations_def maxNumberOfPoints_def
      signed_divide_int_def signed_modulo_int_def Second_def)
  have "\<not> ((15::int) dvd 0 \<and> - 7 \<le> (0::int) \<longrightarrow> sint (Unix (time_Unix 15)) \<le> 0)"
    by simp
  then have b: "\<not> (\<forall>m. 15 dvd m \<and> - 7 \<le> m \<longrightarrow> sint (Unix (time_Unix 15)) \<le> m)"
    by blast
  show ?thesis using a b by blast
qed

subsection \<open>The validity of a range\<close>








subsection \<open>A key that does not exist\<close>

text \<open>
  Claim C8, as amended.  In the server whose handler checks the key first (the one
  that reads seconds since the epoch), for every GET request with a valid range whose
  key the store does not have, the handler answers 400 with "key does not exist" and has
  called \<open>Get\<close> only: the store's query is not invoked and the store, the disk and the log
  are as before.  The handler of \<open>cmd/server/main.go\<close> has no such check: for every GET
  request with a valid range it invokes the store's query, and when the query returns an
  error it answers 500 with "error executing query" and logs the error.
\<close>

theorem missing_key_precheck:
  "(\<forall>args. Method r = ''GET'' \<and>
      newQueryArgs (FormValue r ''start'') (FormValue r ''end'') = Inr args \<and>
      \<not> Get st (store w) (FormValue r ''key'')
      \<longrightarrow> handlerQuery st r w =
            Inr (writeResponse 400 statusError ''key does not exist'' None,
                 w\<lparr>calls := calls w @ [CallGet (FormValue r ''key'')]\<rparr>)) \<and>
   statusCode (writeResponse 400 statusError ''key does not exist'' None) = 400 \<and>
   (\<forall>args. Method r = ''GET'' \<and>
      newQueryArgs_cmd parse (FormValue r ''start'') (FormValue r ''end'') = Inr args
      \<longrightarrow> (\<exists>resp w'. handlerQuery_cmd parse st r w = Inr (resp, w') \<and>
             calls w' = calls w @ [CallQuery (FormValue r ''key'') (start args) (end' args)
                                     (interval args)])) \<and>
   (\<forall>args err. Method r = ''GET'' \<and>
      newQueryArgs_cmd parse (FormValue r ''start'') (FormValue r ''end'') = Inr args \<and>
      Query st (store w) (FormValue r ''key'') (start args) (end' args) (interval args) = Inl err
      \<longrightarrow> handlerQuery_cmd parse st r w =
            Inr (writeResponse 500 statusError ''error executing query'' None,
                 w\<lparr>calls := calls w @ [CallQuery (FormValue r ''key'') (start args) (end' args)
                                         (interval args)],
                   logs := logs w @ [''error executing query: '' @ err]\<rparr>)) \<and>
   statusCode (writeResponse 500 statusError ''error executing query'' None) = 500"
proof -
  have A: "\<forall>args. Method r = ''GET'' \<and>
      newQueryArgs (FormValue r ''start'') (FormValue r ''end'') = Inr args \<and>
      \<not> Get st (store w) (FormValue r ''key'')
      \<longrightarrow> handlerQuery st r w =
            Inr (writeResponse 400 statusError ''key does not exist'' None,
                 w\<lparr>calls := calls w @ [CallGet (FormValue r ''key'')]\<rparr>)"
    by (simp add: handlerQuery_def Let_def called_def)
  have B: "statusCode (writeResponse 400 statusError ''key does not exist'' None) = 400"
    by (simp add: writeResponse_def Let_def)
  have C: "\<forall>args. Method r = ''GET'' \<and>
      newQueryArgs_cmd parse (FormValue r ''start'') (FormValue r ''end'') = Inr args
      \<longrightarrow> (\<exists>resp w'. handlerQuery_cmd parse st r w = Inr (resp, w') \<and>
             calls w' = calls w @ [CallQuery (FormValue r ''key'') (start args) (end' args)
                                     (interval args)])"
    by (auto simp: handlerQuery_cmd_def Let_def called_def logPrint_def split: sum.splits)
  have D: "\<forall>args err. Method r = ''GET'' \<and>
      newQueryArgs_cmd parse (FormValue r ''start'') (FormValue r ''end'') = Inr args \<and>
      Query st (store w) (FormValue r ''key'') (start args) (end' args) (interval args) = Inl err
      \<longrightarrow> handlerQuery_cmd parse st r w =
            Inr (writeResponse 500 statusError ''error executing query'' None,
                 w\<lparr>calls := calls w @ [CallQuery (FormValue r ''key'') (start args) (end' args)
                                         (interval args)],
                   logs := logs w @ [''error executing query: '' @ err]\<rparr>)"
    by (simp add: handlerQuery_cmd_def Let_def called_def logPrint_def)
  have E: "statusCode (writeResponse 500 statusError ''error executing query'' None) = 500"
    by (simp add: writeResponse_def Let_def)
  show ?thesis by (intro conjI A B C D E)
qed

lemma newQueryArgs_0_100:
  "newQueryArgs ''0'' ''100'' =
     Inr \<lparr>start = time_Unix 0, end' = time_Unix 100, interval = 15 * Second\<rparr>"
  by (simp add: newQueryArgs_def Atoi_def Let_def isDigit_def digitsValue_def ceilInt64_def
      rem64_def andThen_def sequenceFrequency_def rangeArgs_def After_def time_Unix_def
      unixToInternal_def Unix_def quo64_def aggregations_def maxNumberOfPoints_def
      signed_divide_int_def signed_modulo_int_def Second_def)

lemma newQueryArgs_cmd_day:
  "newQueryArgs_cmd parseExample ''2023-08-18 00:00:00'' ''2023-08-18 23:59:59'' =
      Inr \<lparr>start = time_Unix 1692316800, end' = time_Unix 1692403199, interval = 300 * Second\<rparr>"
proof -
  have "rangeArgs (time_Unix 1692316800) (time_Unix 1692403199) =
      Inr \<lparr>start = time_Unix 1692316800, end' = time_Unix 1692403199, interval = 300 * Second\<rparr>"
    by (simp add: rangeArgs_def After_def time_Unix_def andThen_def
      unixToInternal_def Unix_def quo64_def aggregations_def maxNumberOfPoints_def
      signed_divide_int_def Second_def)
  then show ?thesis by (simp add: newQueryArgs_cmd_def parseExample_def)
qed

text \<open>The theorem against the empty store: at \<open>key=missing&start=0&end=100\<close> for the handler
  with the check, and at the key \<open>missing\<close> over 2023-08-18 for the handler of
  \<open>cmd/server/main.go\<close>, where the store's query fails.\<close>

theorem missing_key_precheck_witness:
  "Method (queryRequest ''missing'' ''0'' ''100'') = ''GET'' \<and>
   \<not> Get keysStore (store emptyWorld) ''missing'' \<and>
   handlerQuery keysStore (queryRequest ''missing'' ''0'' ''100'') emptyWorld =
     Inr (writeResponse 400 statusError ''key does not exist'' None,
          emptyWorld\<lparr>calls := [CallGet ''missing'']\<rparr>) \<and>
   Method (queryRequest ''missing'' ''2023-08-18 00:00:00'' ''2023-08-18 23:59:59'') = ''GET'' \<and>
   Query keysStore (store emptyWorld) ''missing'' (time_Unix 1692316800) (time_Unix 1692403199)
       (300 * Second) = Inl ''key does not exist'' \<and>
   handlerQuery_cmd parseExample keysStore
       (queryRequest ''missing'' ''2023-08-18 00:00:00'' ''2023-08-18 23:59:59'') emptyWorld =
     Inr (writeResponse 500 statusError ''error executing query'' None,
          emptyWorld\<lparr>calls := [CallQuery ''missing'' (time_Unix 1692316800)
                                   (time_Unix 1692403199) (300 * Second)],
                      logs := [''error executing query: key does not exist'']\<rparr>)"
proof -
  let ?r = "queryRequest ''missing'' ''0'' ''100''"
  let ?r2 = "queryRequest ''missing'' ''2023-08-18 00:00:00'' ''2023-08-18 23:59:59''"
  have m: "Method ?r = ''GET''" by (simp add: queryRequest_def)
  have f: "FormValue ?r ''start'' = ''0''" "FormValue ?r ''end'' = ''100''"
    "FormValue ?r ''key'' = ''missing''"
    by (simp_all add: queryRequest_def)
  have g: "\<not> Get keysStore (store emptyWorld) ''missing''"
    by (simp add: keysStore_def emptyWorld_def)
  have c: "calls emptyWorld = []" "logs emptyWorld = []" by (simp_all add: emptyWorld_def)
  have "handlerQuery keysStore ?r emptyWorld =
     Inr (writeResponse 400 statusError ''key does not exist'' None,
          emptyWorld\<lparr>calls := calls emptyWorld @ [CallGet (FormValue ?r ''key'')]\<rparr>)"
    using missing_key_precheck [of ?r keysStore emptyWorld, THEN conjunct1] m f g
      newQueryArgs_0_100 by simp
  then have A: "handlerQuery keysStore ?r emptyWorld =
     Inr (writeResponse 400 statusError ''key does not exist'' None,
          emptyWorld\<lparr>calls := [CallGet ''missing'']\<rparr>)"
    using f c by simp
  have m2: "Method ?r2 = ''GET''" by (simp add: queryRequest_def)
  have f2: "FormValue ?r2 ''start'' = ''2023-08-18 00:00:00''"
    "FormValue ?r2 ''end'' = ''2023-08-18 23:59:59''"
    "FormValue ?r2 ''key'' = ''missing''"
    by (simp_all add: queryRequest_def)
  have q: "Query keysStore (store emptyWorld) ''missing'' (time_Unix 1692316800)
       (time_Unix 1692403199) (300 * Second) = Inl ''key does not exist''"
    by (simp add: keysStore_def emptyWorld_def)
  have "handlerQuery_cmd parseExample keysStore ?r2 emptyWorld =
     Inr (writeResponse 500 statusError ''error executing query'' None,
          emptyWorld\<lparr>calls := calls emptyWorld @ [CallQuery ''missing'' (time_Unix 1692316800)
                                   (time_Unix 1692403199) (300 * Second)],
                      logs := logs emptyWorld @ [''error executing query: '' @ ''key does not exist'']\<rparr>)"
    using missing_key_precheck [of ?r2 keysStore emptyWorld parseExample,
        THEN conjunct2, THEN conjunct2, THEN conjunct2, THEN conjunct1]
      m2 f2 q newQueryArgs_cmd_day by simp
  then have B: "handlerQuery_cmd parseExample keysStore ?r2 emptyWorld =
     Inr (writeResponse 500 statusError ''error executing query'' None,
          emptyWorld\<lparr>calls := [CallQuery ''missing'' (time_Unix 1692316800)
                                   (time_Unix 1692403199) (300 * Second)],
                      logs := [''error executing query: key does not exist'']\<rparr>)"
    using c by simp
  show ?thesis by (intro conjI m g A m2 q B)
qed

text \<open>Claim C8 as stated fails in the handler of \<open>cmd/server/main.go\<close>: against the
  empty store, the query for the key \<open>missing\<close> over 2023-08-18 reaches the store's query
  and is answered 500.\<close>

theorem no_precheck_counterexample:
  "\<not> Get keysStore (store emptyWorld) ''missing'' \<and>
   handlerQuery_cmd parseExample keysStore
       (queryRequest ''missing'' ''2023-08-18 00:00:00'' ''2023-08-18 23:59:59'') emptyWorld =
     Inr (writeResponse 500 statusError ''error executing query'' None,
          emptyWorld\<lparr>calls := [CallQuery ''missing'' (time_Unix 1692316800)
                                   (time_Unix 1692403199) (300 * Second)],
                      logs := [''error executing query: key does not exist'']\<rparr>)"
proof -
  have r: "rangeArgs (time_Unix 1692316800) (time_Unix 1692403199) =
      Inr \<lparr>start = time_Unix 1692316800, end' = time_Unix 1692403199, interval = 300 * Second\<rparr>"
    by (simp add: rangeArgs_def After_def time_Unix_def andThen_def
      unixToInternal_def Unix_def quo64_def aggregations_def maxNumberOfPoints_def
      signed_divide_int_def Second_def)
  have n: "newQueryArgs_cmd parseExample ''2023-08-18 00:00:00'' ''2023-08-18 23:59:59'' =
      Inr \<lparr>start = time_Unix 1692316800, end' = time_Unix 1692403199, interval = 300 * Second\<rparr>"
    using r by (simp add: newQueryArgs_cmd_def parseExample_def)
  have g: "\<not> Get keysStore (store emptyWorld) ''missing''"
    by (simp add: keysStore_def emptyWorld_def)
  have "handlerQuery_cmd parseExample keysStore
       (queryRequest ''missing'' ''2023-08-18 00:00:00'' ''2023-08-18 23:59:59'') emptyWorld =
     Inr (writeResponse 500 statusError ''error executing query'' None,
          emptyWorld\<lparr>calls := [CallQuery ''missing'' (time_Unix 1692316800)
                                   (time_Unix 1692403199) (300 * Second)],
                      logs := [''error executing query: key does not exist'']\<rparr>)"
    using n by (simp add: handlerQuery_cmd_def queryRequest_def Let_def called_def logPrint_def
        keysStore_def emptyWorld_def)
  then show ?thesis using g by simp
qed

subsection \<open>The dump\<close>

text \<open>
  Claim C9.  For every invocation of \<open>dump\<close>: if the serialization of the store fails,
  the disk is left as it was, whatever \<open>os.WriteFile\<close> would have done, and the failure
  is logged; if the serialization succeeds and the write fails, the failure is logged and
  \<open>dump\<close> returns (the disk is what the failed write left); the disk changes only when the
  serialization has succeeded, and then to what the write of the serialized buffer
  leaves.  The store itself is not changed.
\<close>

theorem dump_writes_after_serialization:
  "(\<forall>err. Dump st (store w) = Inl err
      \<longrightarrow> disk (dump st writeFile f w) = disk w \<and>
          logs (dump st writeFile f w) = logs w @ [''error dumping store: '' @ err]) \<and>
   (\<forall>buf e d. Dump st (store w) = Inr buf \<and> writeFile f buf (disk w) = (Some e, d)
      \<longrightarrow> disk (dump st writeFile f w) = d \<and>
          logs (dump st writeFile f w) = logs w @ [''error writing file: '' @ e]) \<and>
   (\<forall>buf d. Dump st (store w) = Inr buf \<and> writeFile f buf (disk w) = (None, d)
      \<longrightarrow> disk (dump st writeFile f w) = d \<and>
          logs (dump st writeFile f w) =
            logs w @ [''writing store to file ('' @ fmt_d (int (length buf)) @ '' bytes)'']) \<and>
   (disk (dump st writeFile f w) \<noteq> disk w
      \<longrightarrow> (\<exists>buf. Dump st (store w) = Inr buf \<and>
                 disk (dump st writeFile f w) = snd (writeFile f buf (disk w)))) \<and>
   store (dump st writeFile f w) = store w \<and>
   calls (dump st writeFile f w) = calls w @ [CallDump]"
proof -
  have A: "\<forall>err. Dump st (store w) = Inl err
      \<longrightarrow> disk (dump st writeFile f w) = disk w \<and>
          logs (dump st writeFile f w) = logs w @ [''error dumping store: '' @ err]"
    by (simp add: dump_def Let_def called_def logPrint_def)
  have B: "\<forall>buf e d. Dump st (store w) = Inr buf \<and> writeFile f buf (disk w) = (Some e, d)
      \<longrightarrow> disk (dump st writeFile f w) = d \<and>
          logs (dump st writeFile f w) = logs w @ [''error writing file: '' @ e]"
    by (simp add: dump_def Let_def called_def logPrint_def)
  have C: "\<forall>buf d. Dump st (store w) = Inr buf \<and> writeFile f buf (disk w) = (None, d)
      \<longrightarrow> disk (dump st writeFile f w) = d \<and>
          logs (dump st writeFile f w) =
            logs w @ [''writing store to file ('' @ fmt_d (int (length buf)) @ '' bytes)'']"
    by (simp add: dump_def Let_def called_def logPrint_def)
  have D: "disk (dump st writeFile f w) \<noteq> disk w
      \<longrightarrow> (\<exists>buf. Dump st (store w) = Inr buf \<and>
                 disk (dump st writeFile f w) = snd (writeFile f buf (disk w)))"
    by (cases "Dump st (store w)")
       (auto simp: dump_def Let_def called_def logPrint_def split: prod.splits option.splits)
  have E: "store (dump st writeFile f w) = store w"
    by (cases "Dump st (store w)")
       (auto simp: dump_def Let_def called_def logPrint_def split: prod.splits option.splits)
  have F: "calls (dump st writeFile f w) = calls w @ [CallDump]"
    by (cases "Dump st (store w)")
       (auto simp: dump_def Let_def called_def logPrint_def split: prod.splits option.splits)
  show ?thesis by (intro conjI A B C D E F)
qed

text \<open>The theorem at a store whose serialization fails, at a write that is denied, and
  at a write that succeeds.\<close>

theorem dump_writes_after_serialization_witness:
  "Dump brokenStore (store emptyWorld) = Inl ''encoding failed'' \<and>
   disk (dump brokenStore writeOK ''store.dump'' emptyWorld) = disk emptyWorld \<and>
   logs (dump brokenStore writeOK ''store.dump'' emptyWorld) =
     [''error dumping store: encoding failed''] \<and>
   Dump keysStore (store emptyWorld) = Inr [] \<and>
   writeDenied ''store.dump'' [] (disk emptyWorld) = (Some ''permission denied'', disk emptyWorld) \<and>
   logs (dump keysStore writeDenied ''store.dump'' emptyWorld) =
     [''error writing file: permission denied''] \<and>
   writeOK ''store.dump'' [] (disk emptyWorld) = (None, (disk emptyWorld)(''store.dump'' \<mapsto> [])) \<and>
   disk (dump keysStore writeOK ''store.dump'' emptyWorld) = (disk emptyWorld)(''store.dump'' \<mapsto> [])"
proof -
  have a: "Dump brokenStore (store emptyWorld) = Inl ''encoding failed''"
    by (simp add: brokenStore_def keysStore_def)
  have b: "Dump keysStore (store emptyWorld) = Inr []"
    by (simp add: keysStore_def)
  have c: "writeDenied ''store.dump'' [] (disk emptyWorld) = (Some ''permission denied'', disk emptyWorld)"
    by (simp add: writeDenied_def)
  have d: "writeOK ''store.dump'' [] (disk emptyWorld) = (None, (disk emptyWorld)(''store.dump'' \<mapsto> []))"
    by (simp add: writeOK_def)
  have l: "logs emptyWorld = []" by (simp add: emptyWorld_def)
  show ?thesis
    using a b c d l
      dump_writes_after_serialization [of brokenStore emptyWorld writeOK "''store.dump''",
        THEN conjunct1]
      dump_writes_after_serialization [of keysStore emptyWorld writeDenied "''store.dump''",
        THEN conjunct2, THEN conjunct1]
      dump_writes_after_serialization [of keysStore emptyWorld writeOK "''store.dump''",
        THEN conjunct2, THEN conjunct2, THEN conjunct1]
    by simp
qed

subsection \<open>The grammar and the two ways to read a line\<close>

lemma isDigit_value:
  assumes "isDigit c"
  shows "0 \<le> (of_char c :: int) - 48 \<and> (of_char c :: int) - 48 \<le> 9 \<and> c \<noteq> CHR ''-'' \<and> c \<noteq> CHR ''+''"
  using assms by (auto simp: isDigit_def)

lemma space_not_word: "\<not> isWordChar (CHR '' '')"
  by (simp add: isWordChar_def)

lemma foldl_digits_nonneg:
  assumes "list_all isDigit ds" "0 \<le> n"
  shows "0 \<le> foldl (\<lambda>n c. 10 * n + (of_char c - 48)) (n :: int) ds"
  using assms
proof (induction ds arbitrary: n)
  case Nil
  then show ?case by simp
next
  case (Cons c ds)
  then have "0 \<le> 10 * n + (of_char c - 48)" using isDigit_value [of c] by simp
  then show ?case using Cons by simp
qed

lemma digitsValue_nonneg: "list_all isDigit ds \<Longrightarrow> 0 \<le> digitsValue ds"
  by (simp add: digitsValue_def foldl_digits_nonneg)

lemma Atoi_digits:
  assumes "ts \<noteq> []" "list_all isDigit ts"
  shows "Atoi ts = (if digitsValue ts < 2 ^ 63 then Inr (word_of_int (digitsValue ts))
                    else Inl ErrRange)"
proof -
  obtain c cs where ts: "ts = c # cs" using assms(1) by (cases ts) auto
  then have "isDigit c" using assms(2) by simp
  then have h: "hd ts \<noteq> CHR ''-''" "hd ts \<noteq> CHR ''+''" using isDigit_value [of c] ts by simp_all
  have "0 \<le> digitsValue ts" using assms(2) by (rule digitsValue_nonneg)
  then show ?thesis using h assms by (auto simp: Atoi_def Let_def)
qed

lemma FindSubmatch_Some:
  assumes "validStatement_FindSubmatch line = Some m"
  shows "\<exists>key d ts. m = [line, key, [d], ts] \<and> key \<noteq> [] \<and> list_all isWordChar key \<and>
           d \<in> set ''012'' \<and> list_all isDigit ts \<and>
           line = key @ CHR '' '' # d # (if ts = [] then [] else CHR '' '' # ts)"
proof -
  let ?key = "takeWhile isWordChar line" and ?rest = "dropWhile isWordChar line"
  have k: "list_all isWordChar ?key"
    by (simp add: list_all_iff) (meson set_takeWhileD)
  have l: "line = ?key @ ?rest" by simp
  from assms obtain sp d ts' where r: "?rest = sp # d # ts'" "?key \<noteq> []"
    by (auto simp: validStatement_FindSubmatch_def Let_def split: if_splits list.splits)
  have spd: "sp = CHR '' ''" "d \<in> set ''012''"
    using assms r
    by (auto simp: validStatement_FindSubmatch_def Let_def split: if_splits list.splits)
  show ?thesis
  proof (cases ts')
    case Nil
    then have "m = [line, ?key, [d], []]"
      using assms r spd by (auto simp: validStatement_FindSubmatch_def Let_def)
    then show ?thesis using k l r spd Nil by auto
  next
    case (Cons sp' digits)
    then have "m = [line, ?key, [d], digits] \<and> sp' = CHR '' '' \<and> digits \<noteq> [] \<and>
               list_all isDigit digits"
      using assms r spd
      by (auto simp: validStatement_FindSubmatch_def Let_def split: if_splits)
    then show ?thesis using k l r spd Cons by auto
  qed
qed

lemma Match_iff_FindSubmatch:
  "validStatement_Match line \<longleftrightarrow> validStatement_FindSubmatch line \<noteq> None"
proof -
  define k where "k = takeWhile isWordChar line"
  define r where "r = dropWhile isWordChar line"
  show ?thesis
    unfolding validStatement_Match_def validStatement_FindSubmatch_def Let_def
      k_def [symmetric] r_def [symmetric]
    by (auto split: list.splits)
qed

lemma IndexByte_append:
  "b \<notin> set xs \<Longrightarrow> IndexByte (xs @ b # ys) b = int (length xs)"
  by (induction xs) (auto simp: Let_def)

lemma decodeValue_012:
  "d \<in> set ''012'' \<Longrightarrow> \<exists>v. decodeValue d = Inr v"
  by (auto simp: decodeValue_def)

text \<open>The statement of a line with the key \<open>key\<close>, the state digit \<open>d\<close> and the digits
  \<open>ts\<close> of the timestamp.\<close>

lemma statementOfMatch_parts:
  "statementOfMatch dv ds [line, key, [d], ts] =
     andThen (decodeValue d) (\<lambda>v.
       andThen (if ts \<noteq> [] then explicitTimestamps ts else Inr (dv, ds)) (\<lambda>(vt, st).
         Inr (newStatement key vt v st)))"
  by (simp add: statementOfMatch_def index_def andThen_def split: sum.splits)

lemma statementOfLine_parts:
  assumes "list_all isWordChar key"
  shows "statementOfLine dv ds (key @ CHR '' '' # d # (if ts = [] then [] else CHR '' '' # ts)) =
     andThen (decodeValue d) (\<lambda>v.
       andThen (if ts \<noteq> [] then explicitTimestamps ts else Inr (dv, ds)) (\<lambda>(vt, st).
         Inr (newStatement key vt v st)))"
proof -
  have "CHR '' '' \<notin> set key"
    using assms space_not_word by (auto simp: list_all_iff)
  then have p: "IndexByte (key @ CHR '' '' # d # (if ts = [] then [] else CHR '' '' # ts)) (CHR '' '')
                  = int (length key)"
    by (rule IndexByte_append)
  let ?tail = "if ts = [] then [] else CHR '' '' # ts"
  let ?line = "key @ CHR '' '' # d # ?tail"
  have n1: "nat (int (length key) + 1) = length key + 1"
    and n3: "nat (int (length key) + 3) = length key + 3" by simp_all
  have i: "index ?line (int (length key) + 1) = Inr d"
    unfolding index_def n1 by (simp add: nth_append)
  have c: "int (length key) + 2 < int (length ?line) \<longleftrightarrow> ts \<noteq> []"
    by simp
  have f: "ts \<noteq> [] \<Longrightarrow> sliceFrom ?line (int (length key) + 3) = Inr ts"
    unfolding sliceFrom_def n3 by simp
  have t: "sliceTo ?line (int (length key)) = Inr key"
    unfolding sliceTo_def by simp
  show ?thesis
  proof (cases "ts = []")
    case True
    then show ?thesis
      using i t c unfolding statementOfLine_def p Let_def
      by (simp add: andThen_def split: sum.splits)
  next
    case False
    then show ?thesis
      using i t c f [OF False] unfolding statementOfLine_def p Let_def
      by (simp add: andThen_def split: sum.splits)
  qed
qed

lemma statementOfLine_eq_Match:
  assumes "validStatement_FindSubmatch line = Some m"
  shows "statementOfLine dv ds line = statementOfMatch dv ds m"
proof -
  from FindSubmatch_Some [OF assms] obtain key d ts where
    m: "m = [line, key, [d], ts]" and k: "list_all isWordChar key"
    and l: "line = key @ CHR '' '' # d # (if ts = [] then [] else CHR '' '' # ts)"
    by blast
  have "statementOfLine dv ds line =
     andThen (decodeValue d) (\<lambda>v.
       andThen (if ts \<noteq> [] then explicitTimestamps ts else Inr (dv, ds)) (\<lambda>(vt, st).
         Inr (newStatement key vt v st)))"
    using statementOfLine_parts [OF k, of dv ds d ts] l by simp
  then show ?thesis using m statementOfMatch_parts by simp
qed

lemma explicitTimestamps_digits:
  assumes "ts \<noteq> []" "list_all isDigit ts"
  shows "explicitTimestamps ts =
           (if digitsValue ts < 2 ^ 63
            then Inr (time_Unix (word_of_int (digitsValue ts)),
                      Truncate (time_Unix (word_of_int (digitsValue ts))) sequenceFrequency)
            else Inl (Panic ''poor validation panic''))"
  by (simp add: explicitTimestamps_def Atoi_digits [OF assms] Let_def)

text \<open>After a match, the only panic left is the one of the timestamp, and it is reached
  exactly by a timestamp that is not an \<open>int64\<close>.\<close>

lemma statementOfMatch_result:
  assumes "validStatement_FindSubmatch line = Some m"
  shows "(digitsValue (m ! 3) < 2 ^ 63 \<longrightarrow> (\<exists>s. statementOfMatch dv ds m = Inr s)) \<and>
         (2 ^ 63 \<le> digitsValue (m ! 3) \<longrightarrow>
            statementOfMatch dv ds m = Inl (Panic ''poor validation panic''))"
proof -
  from FindSubmatch_Some [OF assms] obtain key d ts where
    m: "m = [line, key, [d], ts]" and d: "d \<in> set ''012''" and t: "list_all isDigit ts"
    by blast
  from decodeValue_012 [OF d] obtain v where v: "decodeValue d = Inr v" by blast
  show ?thesis
  proof (cases "ts = []")
    case True
    then show ?thesis using m v
      by (simp add: statementOfMatch_parts andThen_def digitsValue_def)
  next
    case False
    then show ?thesis using m v explicitTimestamps_digits [OF False t]
      by (simp add: statementOfMatch_parts andThen_def)
  qed
qed

subsection \<open>Explicit timestamps\<close>

lemma sint_plus_unixToInternal_le:
  assumes "sint c \<le> 9223371974719179007"
  shows "sint (c + unixToInternal) = sint c + 62135596800"
proof -
  have "c + unixToInternal = word_of_int (sint c + 62135596800)"
    by (simp add: unixToInternal_def)
  moreover have "sint (word_of_int (sint c + 62135596800) :: int64) = sint c + 62135596800"
    using assms sint_range64 [of c] by (intro sint_of_int_eq) simp_all
  ultimately show ?thesis by simp
qed

lemma mod_15_plus_unixToInternal:
  fixes t :: int
  shows "(t + 62135596800) mod 15 = t mod 15"
proof -
  have "(62135596800 :: int) = 15 * 4142373120" by simp
  then show ?thesis by (metis mod_mult_self2)
qed

text \<open>The timestamps of a statement with the explicit timestamp \<open>t\<close>.\<close>

lemma explicit_times:
  fixes t :: int
  assumes t0: "0 \<le> t" and tb: "t \<le> 9223371974719179007"
  defines "vt \<equiv> time_Unix (word_of_int t)"
  defines "st \<equiv> Truncate vt sequenceFrequency"
  shows "sint (Unix vt) = t" and "sint (Unix st) = t - t mod 15"
    and "\<not> After st vt"
proof -
  let ?x = "word_of_int t :: int64"
  have sx: "sint ?x = t" using t0 tb by (intro sint_of_int_eq) simp_all
  show "sint (Unix vt) = t" using sx by (simp add: vt_def)
  have sv: "sint (sec vt) = t + 62135596800"
    using sint_plus_unixToInternal_le [of ?x] sx tb by (simp add: vt_def time_Unix_def)
  let ?f = "t - t mod 15 + 62135596800"
  have m: "0 \<le> t mod 15" "t mod 15 < 15" by simp_all
  have f: "(t + 62135596800) - (t + 62135596800) mod 15 = ?f"
    by (simp add: mod_15_plus_unixToInternal)
  have f0: "\<not> ?f < - (2 ^ 63)" using t0 m by simp
  have st: "st = \<lparr>sec = word_of_int ?f, nsec = 0\<rparr>"
    using f f0 by (simp add: st_def Truncate_def sequenceFrequency_def sv Let_def)
  have sf: "sint (word_of_int ?f :: int64) = ?f"
    using t0 tb m by (intro sint_of_int_eq) simp_all
  have "Unix st = word_of_int (t - t mod 15)"
    by (simp add: st Unix_def unixToInternal_def)
  moreover have "sint (word_of_int (t - t mod 15) :: int64) = t - t mod 15"
    using t0 tb m by (intro sint_of_int_eq) simp_all
  ultimately show "sint (Unix st) = t - t mod 15" by simp
  have "nsec vt = 0" by (simp add: vt_def time_Unix_def)
  then show "\<not> After st vt"
    using sv sf m by (simp add: After_def st)
qed

text \<open>
  Claim C4, as amended.  For every line that matches the grammar and carries an explicit
  timestamp \<open>t\<close> of at most 9223371974719179007 seconds (beyond that \<open>time.Unix\<close> leaves
  the range of \<open>time.Time\<close>), both versions of the handler produce the same statement; its
  \<open>valueTimestamp\<close> (the field \<open>Timestamp\<close>) is \<open>t\<close> itself, as given; its
  \<open>sequenceTimestamp\<close> (the field \<open>CreateWithTimestamp\<close>) is \<open>valueTimestamp\<close> truncated to
  the grain, that is \<open>t - t mod 15\<close>: it is aligned to 15 seconds and not after
  \<open>valueTimestamp\<close>.  The \<open>valueTimestamp\<close> is aligned only when the raw timestamp is.
\<close>

theorem explicit_timestamp_statement:
  assumes m: "validStatement_FindSubmatch line = Some m" and ex: "m ! 3 \<noteq> []"
    and b: "digitsValue (m ! 3) \<le> 9223371974719179007"
  shows "\<exists>s. statementOfMatch dv ds m = Inr s \<and> statementOfLine dv ds line = Inr s \<and>
           sint (Unix (Timestamp s)) = digitsValue (m ! 3) \<and>
           CreateWithTimestamp s = Truncate (Timestamp s) sequenceFrequency \<and>
           \<not> After (CreateWithTimestamp s) (Timestamp s) \<and>
           sint (Unix (CreateWithTimestamp s)) \<le> sint (Unix (Timestamp s)) \<and>
           sint (Unix (CreateWithTimestamp s)) = digitsValue (m ! 3) - digitsValue (m ! 3) mod 15 \<and>
           15 dvd sint (Unix (CreateWithTimestamp s)) \<and>
           (15 dvd sint (Unix (Timestamp s)) \<longleftrightarrow> 15 dvd digitsValue (m ! 3))"
proof -
  from FindSubmatch_Some [OF m] obtain key d ts where
    mm: "m = [line, key, [d], ts]" and d: "d \<in> set ''012''" and t: "list_all isDigit ts"
    by blast
  have ts: "ts \<noteq> []" "m ! 3 = ts" using ex mm by simp_all
  let ?t = "digitsValue ts"
  have t0: "0 \<le> ?t" using t by (rule digitsValue_nonneg)
  have tb: "?t \<le> 9223371974719179007" using b ts by simp
  from decodeValue_012 [OF d] obtain v where v: "decodeValue d = Inr v" by blast
  let ?vt = "time_Unix (word_of_int ?t)"
  let ?st = "Truncate ?vt sequenceFrequency"
  let ?s = "newStatement key ?vt v ?st"
  have e: "explicitTimestamps ts = Inr (?vt, ?st)"
    using explicitTimestamps_digits [OF ts(1) t] tb by simp
  have A: "statementOfMatch dv ds m = Inr ?s"
    using mm v e ts(1) by (simp add: statementOfMatch_parts andThen_def)
  have B: "statementOfLine dv ds line = Inr ?s"
    using statementOfLine_eq_Match [OF m] A by simp
  have T: "Timestamp ?s = ?vt" "CreateWithTimestamp ?s = ?st"
    by (simp_all add: newStatement_def)
  note x = explicit_times [OF t0 tb]
  have m15: "0 \<le> ?t mod 15" by simp
  have dv: "15 dvd ?t - ?t mod 15" by (simp add: minus_mod_eq_mult_div)
  show ?thesis
    apply (rule exI [of _ ?s])
    unfolding T ts(2)
    using A B x m15 dv by simp
qed

text \<open>The theorem at the line \<open>k1 1 1692316807\<close>.\<close>

theorem explicit_timestamp_statement_witness:
  "validStatement_FindSubmatch ''k1 1 1692316807'' = Some [''k1 1 1692316807'', ''k1'', ''1'', ''1692316807''] \<and>
   digitsValue ''1692316807'' = 1692316807 \<and>
   (\<exists>s. statementOfLine (time_Unix 0) (time_Unix 0) ''k1 1 1692316807'' = Inr s \<and>
      sint (Unix (Timestamp s)) = 1692316807 \<and>
      sint (Unix (CreateWithTimestamp s)) = 1692316800 \<and>
      \<not> After (CreateWithTimestamp s) (Timestamp s))"
proof -
  let ?m = "[''k1 1 1692316807'', ''k1'', ''1'', ''1692316807'']"
  have a: "validStatement_FindSubmatch ''k1 1 1692316807'' = Some ?m"
    by (simp add: validStatement_FindSubmatch_def isWordChar_def isDigit_def)
  have v: "digitsValue ''1692316807'' = 1692316807"
    by (simp add: digitsValue_def)
  have b: "?m ! 3 \<noteq> []" by simp
  have c: "digitsValue (?m ! 3) \<le> 9223371974719179007" using v by simp
  from explicit_timestamp_statement [OF a b c, of "time_Unix 0" "time_Unix 0"]
  obtain s where s: "statementOfLine (time_Unix 0) (time_Unix 0) ''k1 1 1692316807'' = Inr s"
    "sint (Unix (Timestamp s)) = digitsValue (?m ! 3)"
    "\<not> After (CreateWithTimestamp s) (Timestamp s)"
    "sint (Unix (CreateWithTimestamp s)) = digitsValue (?m ! 3) - digitsValue (?m ! 3) mod 15"
    by (elim exE conjE) (rule that; assumption)
  have "sint (Unix (Timestamp s)) = 1692316807"
    "sint (Unix (CreateWithTimestamp s)) = 1692316800"
    using s(2,4) v by simp_all
  then show ?thesis using a v s(1,3) by (intro conjI exI [of _ s]) simp_all
qed

text \<open>Claim C4 as stated fails at the line \<open>k 1 7\<close>: the \<open>valueTimestamp\<close> of its
  statement is 7 seconds after the epoch, which is not a multiple of 15.\<close>

theorem unaligned_value_timestamp_counterexample:
  "validStatement_Match ''k 1 7'' \<and>
   statementOfLine (time_Unix 0) (time_Unix 0) ''k 1 7'' =
     Inr (newStatement ''k'' (time_Unix 7) StateActive (time_Unix 0)) \<and>
   statementOfMatch (time_Unix 0) (time_Unix 0) [''k 1 7'', ''k'', ''1'', ''7''] =
     Inr (newStatement ''k'' (time_Unix 7) StateActive (time_Unix 0)) \<and>
   Timestamp (newStatement ''k'' (time_Unix 7) StateActive (time_Unix 0)) = time_Unix 7 \<and>
   sint (Unix (time_Unix 7)) = 7 \<and> \<not> 15 dvd sint (Unix (time_Unix 7))"
proof -
  have a: "validStatement_FindSubmatch ''k 1 7'' = Some [''k 1 7'', ''k'', ''1'', ''7'']"
    by (simp add: validStatement_FindSubmatch_def isWordChar_def isDigit_def)
  have b: "validStatement_Match ''k 1 7''"
    using a by (simp add: Match_iff_FindSubmatch)
  have e: "explicitTimestamps ''7'' = Inr (time_Unix 7, time_Unix 0)"
    by (simp add: explicitTimestamps_def Atoi_def isDigit_def digitsValue_def Let_def
        Truncate_def time_Unix_def sequenceFrequency_def unixToInternal_def)
  have c: "statementOfMatch (time_Unix 0) (time_Unix 0) [''k 1 7'', ''k'', ''1'', ''7''] =
     Inr (newStatement ''k'' (time_Unix 7) StateActive (time_Unix 0))"
    using e by (simp add: statementOfMatch_parts andThen_def decodeValue_def)
  have d: "statementOfLine (time_Unix 0) (time_Unix 0) ''k 1 7'' =
     Inr (newStatement ''k'' (time_Unix 7) StateActive (time_Unix 0))"
    using statementOfLine_eq_Match [OF a] c by simp
  show ?thesis using b c d by (simp add: newStatement_def)
qed

subsection \<open>The loops of the insert handlers\<close>

lemma statementOfLine_fitting:
  assumes "validStatement_Match l" "fitting [l]"
  shows "\<exists>m s. validStatement_FindSubmatch l = Some m \<and> statementOfMatch dv ds m = Inr s \<and>
           statementOfLine dv ds l = Inr s"
proof -
  from assms(1) obtain m where m: "validStatement_FindSubmatch l = Some m"
    by (auto simp: Match_iff_FindSubmatch)
  then have "digitsValue (m ! 3) < 2 ^ 63" using assms(2) by (simp add: fitting_iff)
  then obtain s where "statementOfMatch dv ds m = Inr s"
    using statementOfMatch_result [OF m, of dv ds] by blast
  then show ?thesis using m statementOfLine_eq_Match [OF m, of dv ds] by simp
qed

lemma fitting_Cons: "fitting (l # ls) \<longleftrightarrow> fitting [l] \<and> fitting ls"
  by (auto simp: fitting_iff)

lemma parseLines_cmd_ok:
  assumes "fitting lines"
  shows "\<exists>im' lg'. parseLines_cmd now (Truncate now sequenceFrequency) lines i sts im sk lg =
           Inr (sts @ statementsOf now lines, im @ im',
                sk + int (length (filter (\<lambda>l. \<not> validStatement_Match l) lines)), lg') \<and>
           length im' = length (statementsOf now lines)"
  using assms
proof (induction lines arbitrary: i sts im sk lg)
  case Nil
  then show ?case by (simp add: statementsOf_def)
next
  case (Cons l ls)
  then have fl: "fitting [l]" and fls: "fitting ls" by (simp_all add: fitting_Cons [of l ls])
  show ?case
  proof (cases "validStatement_Match l")
    case False
    then have n: "validStatement_FindSubmatch l = None" by (simp add: Match_iff_FindSubmatch)
    have so: "statementsOf now (l # ls) = statementsOf now ls"
      using False by (simp add: statementsOf_def)
    from Cons.IH [OF fls, of "i + 1" sts im "sk + 1" "lg @ [''error parsing statement '' @ fmt_d (i + 1)]"]
    obtain im' lg' where
      r: "parseLines_cmd now (Truncate now sequenceFrequency) ls (i + 1) sts im (sk + 1)
            (lg @ [''error parsing statement '' @ fmt_d (i + 1)]) =
           Inr (sts @ statementsOf now ls, im @ im',
                sk + 1 + int (length (filter (\<lambda>l. \<not> validStatement_Match l) ls)), lg')"
      and l: "length im' = length (statementsOf now ls)"
      by blast
    have "parseLines_cmd now (Truncate now sequenceFrequency) (l # ls) i sts im sk lg =
           Inr (sts @ statementsOf now (l # ls), im @ im',
                sk + int (length (filter (\<lambda>l. \<not> validStatement_Match l) (l # ls))), lg')"
      using n r False so by simp
    then show ?thesis using l so by auto
  next
    case True
    from statementOfLine_fitting [OF True fl, of now "Truncate now sequenceFrequency"]
    obtain m s where m: "validStatement_FindSubmatch l = Some m"
      and s: "statementOfMatch now (Truncate now sequenceFrequency) m = Inr s"
      and s': "statementOfLine now (Truncate now sequenceFrequency) l = Inr s"
      by blast
    have so: "statementsOf now (l # ls) = s # statementsOf now ls"
      using True s' by (simp add: statementsOf_def)
    from Cons.IH [OF fls, of "i + 1" "sts @ [s]" "im @ [i]" sk lg]
    obtain im' lg' where
      r: "parseLines_cmd now (Truncate now sequenceFrequency) ls (i + 1) (sts @ [s]) (im @ [i]) sk lg =
           Inr ((sts @ [s]) @ statementsOf now ls, (im @ [i]) @ im',
                sk + int (length (filter (\<lambda>l. \<not> validStatement_Match l) ls)), lg')"
      and l: "length im' = length (statementsOf now ls)"
      by blast
    have "parseLines_cmd now (Truncate now sequenceFrequency) (l # ls) i sts im sk lg =
           Inr (sts @ statementsOf now (l # ls), im @ (i # im'),
                sk + int (length (filter (\<lambda>l. \<not> validStatement_Match l) (l # ls))), lg')"
      using m s r True so by simp
    moreover have "length (i # im') = length (statementsOf now (l # ls))"
      using l so by simp
    ultimately show ?thesis by blast
  qed
qed

lemma countErrors_cmd_ok:
  assumes "0 \<le> i" "i + int (length errs) \<le> int (length im)"
  shows "\<exists>lg'. countErrors_cmd errs i im sk lg =
           Inr (sk + int (length (filter (\<lambda>e. e \<noteq> None) errs)), lg')"
  using assms
proof (induction errs arbitrary: i sk lg)
  case Nil
  then show ?case by simp
next
  case (Cons e errs)
  then have i: "0 \<le> i + 1" "i + 1 + int (length errs) \<le> int (length im)" by simp_all
  show ?case
  proof (cases e)
    case None
    then show ?thesis using Cons.IH [OF i, of sk lg] by simp
  next
    case (Some x)
    have "index im i = Inr (im ! nat i)" using Cons.prems by (simp add: index_def)
    then show ?thesis
      using Some Cons.IH [OF i, of "sk + 1"] by (simp add: algebra_simps)
  qed
qed

lemma countErrors_ok:
  assumes "0 \<le> i" "i + int (length errs) \<le> int (length mapping)"
  shows "\<exists>lg'. countErrors errs i mapping n lg =
           Inr (n - int (length (filter (\<lambda>e. e \<noteq> None) errs)), lg')"
  using assms
proof (induction errs arbitrary: i n lg)
  case Nil
  then show ?case by simp
next
  case (Cons e errs)
  then have i: "0 \<le> i + 1" "i + 1 + int (length errs) \<le> int (length mapping)" by simp_all
  show ?case
  proof (cases e)
    case None
    then show ?thesis using Cons.IH [OF i, of n lg] by simp
  next
    case (Some x)
    have "index mapping i = Inr (mapping ! nat i)" using Cons.prems by (simp add: index_def)
    then show ?thesis
      using Some Cons.IH [OF i, of "n - 1"] by (simp add: algebra_simps)
  qed
qed


lemma matchedIndices_props:
  "length (matchedIndices i lines) = length (filter validStatement_Match lines) \<and>
   (\<forall>k \<in> set (matchedIndices i lines). i \<le> k \<and> k < i + int (length lines)) \<and>
   map (\<lambda>k. lines ! nat (k - i)) (matchedIndices i lines) = filter validStatement_Match lines"
proof (induction lines arbitrary: i)
  case Nil
  then show ?case by simp
next
  case (Cons l ls)
  have ih: "length (matchedIndices (i + 1) ls) = length (filter validStatement_Match ls)"
    "\<forall>k \<in> set (matchedIndices (i + 1) ls). i + 1 \<le> k \<and> k < i + 1 + int (length ls)"
    "map (\<lambda>k. ls ! nat (k - (i + 1))) (matchedIndices (i + 1) ls) = filter validStatement_Match ls"
    using Cons.IH [of "i + 1"] by simp_all
  have shift: "map (\<lambda>k. (l # ls) ! nat (k - i)) (matchedIndices (i + 1) ls) =
               map (\<lambda>k. ls ! nat (k - (i + 1))) (matchedIndices (i + 1) ls)"
  proof (rule map_cong [OF refl])
    fix k assume "k \<in> set (matchedIndices (i + 1) ls)"
    then have "i + 1 \<le> k" using ih(2) by blast
    then have "nat (k - i) = Suc (nat (k - (i + 1)))" by simp
    then show "(l # ls) ! nat (k - i) = ls ! nat (k - (i + 1))" by simp
  qed
  show ?case
    using ih(1) ih(2) ih(3) shift by (cases "validStatement_Match l") (auto simp: simp del: map_eq_conv)
qed

lemma validateLines_ok:
  assumes "0 \<le> n" "n \<le> i" "i + int (length lines) \<le> int (length mapping)"
  shows "\<exists>mapping' lg'. validateLines lines i mapping n lg =
           Inr (mapping', n + int (length (matchedIndices i lines)), lg') \<and>
           length mapping' = length mapping \<and>
           take (nat n + length (matchedIndices i lines)) mapping' =
             take (nat n) mapping @ matchedIndices i lines"
  using assms
proof (induction lines arbitrary: i mapping n lg)
  case Nil
  then show ?case by simp
next
  case (Cons l ls)
  show ?case
  proof (cases "validStatement_Match l")
    case False
    have p: "0 \<le> n" "n \<le> i + 1" "i + 1 + int (length ls) \<le> int (length mapping)"
      using Cons.prems by simp_all
    from Cons.IH [OF p, of "lg @ [''error parsing statement '' @ fmt_d (i + 1)]"]
    show ?thesis using False by simp
  next
    case True
    let ?mp = "mapping[nat n := i]"
    have a: "assign mapping n i = Inr ?mp" using Cons.prems by (simp add: assign_def)
    have p: "0 \<le> n + 1" "n + 1 \<le> i + 1" "i + 1 + int (length ls) \<le> int (length ?mp)"
      using Cons.prems by simp_all
    from Cons.IH [OF p, of lg] obtain mapping' lg' where
      r: "validateLines ls (i + 1) ?mp (n + 1) lg =
           Inr (mapping', n + 1 + int (length (matchedIndices (i + 1) ls)), lg')"
      and l: "length mapping' = length ?mp"
      and t: "take (nat (n + 1) + length (matchedIndices (i + 1) ls)) mapping' =
             take (nat (n + 1)) ?mp @ matchedIndices (i + 1) ls"
      by blast
    have nn: "nat (n + 1) = Suc (nat n)" using Cons.prems by simp
    have lt: "nat n < length mapping" using Cons.prems by simp
    have tk: "take (Suc (nat n)) ?mp = take (nat n) mapping @ [i]"
      using lt by (simp add: take_Suc_conv_app_nth)
    have "validateLines (l # ls) i mapping n lg =
           Inr (mapping', n + int (length (matchedIndices i (l # ls))), lg')"
      using True a r by (simp add: algebra_simps)
    moreover have "length mapping' = length mapping" using l by simp
    moreover have "take (nat n + length (matchedIndices i (l # ls))) mapping' =
             take (nat n) mapping @ matchedIndices i (l # ls)"
      using t tk True nn by simp
    ultimately show ?thesis by blast
  qed
qed

lemma buildStatements_ok:
  assumes "0 \<le> i" "i \<le> n" "n \<le> int (length mapping)"
    and "\<forall>j. i \<le> j \<and> j < n \<longrightarrow>
           0 \<le> mapping ! nat j \<and> mapping ! nat j < int (length lines) \<and>
           (\<exists>s. statementOfLine dv ds (lines ! nat (mapping ! nat j)) = Inr s)"
  shows "buildStatements dv ds lines mapping n i sts =
           Inr (sts @ concat (map (\<lambda>k. case statementOfLine dv ds (lines ! nat k) of
                                          Inl p \<Rightarrow> [] | Inr s \<Rightarrow> [s])
                               (drop (nat i) (take (nat n) mapping))))"
  using assms
proof (induction "nat (n - i)" arbitrary: i sts)
  case 0
  then have "i = n" by simp
  then show ?case by (simp add: buildStatements.simps [of dv ds lines mapping n n])
next
  case (Suc d)
  then have lt: "i < n" by simp
  from Suc.prems(4) lt obtain s where
    k: "0 \<le> mapping ! nat i" "mapping ! nat i < int (length lines)"
    and s: "statementOfLine dv ds (lines ! nat (mapping ! nat i)) = Inr s"
    by (metis order_refl)
  have im: "index mapping i = Inr (mapping ! nat i)"
    using Suc.prems lt by (simp add: index_def)
  have il: "index lines (mapping ! nat i) = Inr (lines ! nat (mapping ! nat i))"
    using k by (simp add: index_def)
  have d: "d = nat (n - (i + 1))" using Suc.hyps(2) by simp
  have p: "0 \<le> i + 1" "i + 1 \<le> n" using Suc.prems lt by simp_all
  have q: "\<forall>j. i + 1 \<le> j \<and> j < n \<longrightarrow>
           0 \<le> mapping ! nat j \<and> mapping ! nat j < int (length lines) \<and>
           (\<exists>s. statementOfLine dv ds (lines ! nat (mapping ! nat j)) = Inr s)"
    using Suc.prems(4) by simp
  have ih: "buildStatements dv ds lines mapping n (i + 1) (sts @ [s]) =
           Inr ((sts @ [s]) @ concat (map (\<lambda>k. case statementOfLine dv ds (lines ! nat k) of
                                          Inl p \<Rightarrow> [] | Inr s \<Rightarrow> [s])
                               (drop (nat (i + 1)) (take (nat n) mapping))))"
    by (rule Suc.hyps(1) [OF d p Suc.prems(3) q])
  have li: "nat i < length (take (nat n) mapping)" using Suc.prems lt by simp
  have dr: "drop (nat i) (take (nat n) mapping) =
              mapping ! nat i # drop (nat (i + 1)) (take (nat n) mapping)"
  proof -
    have "drop (nat i) (take (nat n) mapping) =
            take (nat n) mapping ! nat i # drop (Suc (nat i)) (take (nat n) mapping)"
      using li by (rule Cons_nth_drop_Suc [symmetric])
    moreover have "take (nat n) mapping ! nat i = mapping ! nat i" using lt Suc.prems(1) by simp
    moreover have "Suc (nat i) = nat (i + 1)" using Suc.prems(1) by simp
    ultimately show ?thesis by simp
  qed
  have "buildStatements dv ds lines mapping n i sts =
          buildStatements dv ds lines mapping n (i + 1) (sts @ [s])"
    using lt im il s by (simp add: buildStatements.simps [of dv ds lines mapping n i])
  then show ?case using ih dr s by simp
qed

lemma length_statementsOf:
  assumes "fitting lines"
  shows "length (statementsOf now lines) = length (filter validStatement_Match lines)"
  using assms
proof (induction lines)
  case Nil
  then show ?case by (simp add: statementsOf_def)
next
  case (Cons l ls)
  then have fl: "fitting [l]" and fls: "fitting ls" by (simp_all add: fitting_Cons [of l ls])
  have ih: "length (statementsOf now ls) = length (filter validStatement_Match ls)"
    using Cons.IH [OF fls] .
  show ?case
  proof (cases "validStatement_Match l")
    case False
    then have "statementsOf now (l # ls) = statementsOf now ls" by (simp add: statementsOf_def)
    then show ?thesis using ih False by simp
  next
    case True
    from statementOfLine_fitting [OF True fl, of now "Truncate now sequenceFrequency"]
    obtain s where "statementOfLine now (Truncate now sequenceFrequency) l = Inr s" by blast
    then have "statementsOf now (l # ls) = s # statementsOf now ls"
      using True by (simp add: statementsOf_def)
    then show ?thesis using ih True by simp
  qed
qed

lemma length_filter_split:
  "int (length (filter P xs)) + int (length (filter (\<lambda>x. \<not> P x) xs)) = int (length xs)"
  using sum_length_filter_compl [of P xs] by linarith

lemma handlerInsert_cmd_response:
  fixes st :: "('s, 'q) Store" and w :: "('s, 'f) world" and now :: Time and b :: string
  assumes post: "Method r = ''POST''" and body: "Body r = Inr b"
    and fit: "fitting (bytes_Split b)"
    and par: "\<forall>s xs. HasErrors (fst (Batch st s xs)) \<longrightarrow>
                length (ErrorVars (fst (Batch st s xs))) = length xs"
  defines "stmts \<equiv> statementsOf now (bytes_Split b)"
  defines "accepted \<equiv> int (length stmts) - rejectedBy (fst (Batch st (store w) stmts))"
  defines "nlines \<equiv> int (length (bytes_Split b))"
  shows "\<exists>w'. handlerInsert_cmd st now r w =
           Inr (writeResponse 200 (if accepted = nlines then statusOK else statusWarning)
                  (processed accepted nlines) None, w') \<and>
           calls w' = calls w @ [CallBatch stmts] \<and>
           store w' = snd (Batch st (store w) stmts)"
proof -
  let ?lines = "bytes_Split b"
  let ?un = "int (length (filter (\<lambda>l. \<not> validStatement_Match l) ?lines))"
  from parseLines_cmd_ok [OF fit, of now 0 "[]" "[]" 0 "logs w"]
  obtain im lg where
    pl: "parseLines_cmd now (Truncate now sequenceFrequency) ?lines 0 [] [] 0 (logs w) =
           Inr (stmts, im, ?un, lg)"
    and lim: "length im = length stmts"
    by (auto simp: stmts_def)
  obtain result s' where bt: "Batch st (store w) stmts = (result, s')"
    by (cases "Batch st (store w) stmts") auto
  let ?w1 = "called (CallBatch stmts) (w\<lparr>logs := lg\<rparr>)"
  let ?w2 = "?w1\<lparr>store := s'\<rparr>"
  have sw1: "store ?w1 = store w" by (simp add: called_def)
  have ms: "int (length stmts) + ?un = nlines"
    using length_statementsOf [OF fit, of now] length_filter_split [of validStatement_Match ?lines]
    by (simp add: stmts_def nlines_def)
  have ce: "\<exists>lg'. (if HasErrors result
                   then countErrors_cmd (ErrorVars result) 0 im ?un (logs ?w2)
                   else Inr (?un, logs ?w2)) = Inr (?un + rejectedBy result, lg')"
  proof (cases "HasErrors result")
    case False
    then show ?thesis by (simp add: rejectedBy_def)
  next
    case True
    then have "length (ErrorVars result) = length stmts"
      using par bt by (metis fst_conv)
    then have "0 + int (length (ErrorVars result)) \<le> int (length im)" using lim by simp
    from countErrors_cmd_ok [OF order_refl this, of ?un "logs ?w2"]
    show ?thesis using True by (simp add: rejectedBy_def)
  qed
  then obtain lg' where ce': "(if HasErrors result
                   then countErrors_cmd (ErrorVars result) 0 im ?un (logs ?w2)
                   else Inr (?un, logs ?w2)) = Inr (?un + rejectedBy result, lg')"
    by blast
  have acc: "accepted = nlines - (?un + rejectedBy result)"
    using ms bt by (simp add: accepted_def)
  have rj: "0 \<le> rejectedBy result" by (simp add: rejectedBy_def)
  have un0: "0 \<le> ?un" by simp
  have stt: "(if 0 < ?un + rejectedBy result then statusWarning else statusOK) =
             (if accepted = nlines then statusOK else statusWarning)"
    using acc rj un0 by auto
  have "handlerInsert_cmd st now r w =
           Inr (writeResponse 200 (if accepted = nlines then statusOK else statusWarning)
                  (processed accepted nlines) None, ?w2\<lparr>logs := lg'\<rparr>)"
    unfolding handlerInsert_cmd_def Let_def
    using post body pl bt sw1 ce' stt acc by (simp add: nlines_def)
  moreover have "calls (?w2\<lparr>logs := lg'\<rparr>) = calls w @ [CallBatch stmts]"
    by (simp add: called_def)
  moreover have "store (?w2\<lparr>logs := lg'\<rparr>) = snd (Batch st (store w) stmts)"
    using bt by simp
  ultimately show ?thesis by blast
qed


lemma matchedIndices_statements:
  assumes fit: "fitting lines"
  defines "mi \<equiv> matchedIndices 0 lines"
  shows "\<forall>k \<in> set mi. 0 \<le> k \<and> k < int (length lines) \<and>
           (\<exists>s. statementOfLine now (Truncate now sequenceFrequency) (lines ! nat k) = Inr s)"
    and "concat (map (\<lambda>k. case statementOfLine now (Truncate now sequenceFrequency) (lines ! nat k) of
                            Inl p \<Rightarrow> [] | Inr s \<Rightarrow> [s]) mi) = statementsOf now lines"
    and "length mi = length (filter validStatement_Match lines)"
proof -
  note p = matchedIndices_props [of 0 lines]
  have rng: "\<forall>k \<in> set mi. 0 \<le> k \<and> k < int (length lines)"
    using p by (simp add: mi_def)
  have mp: "map (\<lambda>k. lines ! nat k) mi = filter validStatement_Match lines"
    using p by (simp add: mi_def)
  show "length mi = length (filter validStatement_Match lines)" using p by (simp add: mi_def)
  show "\<forall>k \<in> set mi. 0 \<le> k \<and> k < int (length lines) \<and>
           (\<exists>s. statementOfLine now (Truncate now sequenceFrequency) (lines ! nat k) = Inr s)"
  proof
    fix k assume k: "k \<in> set mi"
    then have "lines ! nat k \<in> set (map (\<lambda>k. lines ! nat k) mi)" by simp
    then have "lines ! nat k \<in> set (filter validStatement_Match lines)" using mp by simp
    then have m: "validStatement_Match (lines ! nat k)" and "lines ! nat k \<in> set lines"
      by simp_all
    then have "fitting [lines ! nat k]" using fit by (simp add: fitting_iff)
    from statementOfLine_fitting [OF m this, of now "Truncate now sequenceFrequency"]
    show "0 \<le> k \<and> k < int (length lines) \<and>
           (\<exists>s. statementOfLine now (Truncate now sequenceFrequency) (lines ! nat k) = Inr s)"
      using rng k by blast
  qed
  have "concat (map (\<lambda>k. case statementOfLine now (Truncate now sequenceFrequency) (lines ! nat k) of
                            Inl p \<Rightarrow> [] | Inr s \<Rightarrow> [s]) mi) =
        concat (map (\<lambda>l. case statementOfLine now (Truncate now sequenceFrequency) l of
                            Inl p \<Rightarrow> [] | Inr s \<Rightarrow> [s]) (map (\<lambda>k. lines ! nat k) mi))"
    by (simp add: comp_def)
  then show "concat (map (\<lambda>k. case statementOfLine now (Truncate now sequenceFrequency) (lines ! nat k) of
                            Inl p \<Rightarrow> [] | Inr s \<Rightarrow> [s]) mi) = statementsOf now lines"
    by (simp only: mp statementsOf_def)
qed

lemma handlerInsert_response:
  fixes st :: "('s, 'q) Store" and w :: "('s, 'f) world" and now :: Time and b :: string
  assumes post: "Method r = ''POST''" and body: "Body r = Inr b"
    and fit: "fitting (bytes_Split b)"
    and par: "\<forall>s xs. HasErrors (fst (Batch st s xs)) \<longrightarrow>
                length (ErrorVars (fst (Batch st s xs))) = length xs"
  defines "stmts \<equiv> statementsOf now (bytes_Split b)"
  defines "accepted \<equiv> int (length stmts) - rejectedBy (fst (Batch st (store w) stmts))"
  defines "nlines \<equiv> int (length (bytes_Split b))"
  shows "\<exists>w'. handlerInsert st now r w =
           Inr (writeResponse 200 (if accepted = nlines then statusOK else statusWarning)
                  (processed accepted nlines) None, w') \<and>
           calls w' = calls w @ [CallBatch stmts] \<and>
           store w' = snd (Batch st (store w) stmts)"
proof -
  let ?lines = "bytes_Split b"
  let ?mi = "matchedIndices 0 ?lines"
  let ?n = "int (length ?mi)"
  let ?ds = "Truncate now sequenceFrequency"
  note ms = matchedIndices_statements(1) [OF fit, of now] matchedIndices_statements(2) [OF fit, of now]
    matchedIndices_statements(3) [OF fit]
  have nle: "length ?mi \<le> length ?lines"
    using ms(3) by simp
  have pre: "(0::int) \<le> 0" "0 + int (length ?lines) \<le> int (length (replicate (length ?lines) (0::int)))"
    by simp_all
  from validateLines_ok [OF pre(1) pre(1) pre(2), of "logs w"]
  obtain mapping lg where
    vl: "validateLines ?lines 0 (replicate (length ?lines) 0) 0 (logs w) = Inr (mapping, ?n, lg)"
    and lm: "length mapping = length ?lines"
    and tk: "take (length ?mi) mapping = ?mi"
    by auto
  have nth: "\<forall>j. 0 \<le> j \<and> j < ?n \<longrightarrow> mapping ! nat j = ?mi ! nat j"
  proof (intro allI impI)
    fix j :: int assume j: "0 \<le> j \<and> j < ?n"
    then have "nat j < length ?mi" by linarith
    then have "take (length ?mi) mapping ! nat j = mapping ! nat j" by simp
    then show "mapping ! nat j = ?mi ! nat j" using tk by simp
  qed
  have q: "\<forall>j. 0 \<le> j \<and> j < ?n \<longrightarrow>
           0 \<le> mapping ! nat j \<and> mapping ! nat j < int (length ?lines) \<and>
           (\<exists>s. statementOfLine now ?ds (?lines ! nat (mapping ! nat j)) = Inr s)"
  proof (intro allI impI)
    fix j :: int assume j: "0 \<le> j \<and> j < ?n"
    then have "nat j < length ?mi" by linarith
    then have "?mi ! nat j \<in> set ?mi" by simp
    then show "0 \<le> mapping ! nat j \<and> mapping ! nat j < int (length ?lines) \<and>
           (\<exists>s. statementOfLine now ?ds (?lines ! nat (mapping ! nat j)) = Inr s)"
      using ms(1) nth j by simp
  qed
  have nm: "?n \<le> int (length mapping)" using nle lm by simp
  have bs: "buildStatements now ?ds ?lines mapping ?n 0 [] = Inr stmts"
    using buildStatements_ok [OF order_refl _ nm q, of "[]"] tk ms(2)
    by (simp add: stmts_def)
  obtain result s' where bt: "Batch st (store w) stmts = (result, s')"
    by (cases "Batch st (store w) stmts") auto
  let ?w1 = "called (CallBatch stmts) (w\<lparr>logs := lg\<rparr>)"
  let ?w2 = "?w1\<lparr>store := s'\<rparr>"
  have sw1: "store ?w1 = store w" by (simp add: called_def)
  have ls: "length stmts = length ?mi"
    using length_statementsOf [OF fit, of now] ms(3) by (simp add: stmts_def)
  have ce: "\<exists>lg'. (if HasErrors result
                   then countErrors (ErrorVars result) 0 mapping ?n (logs ?w2)
                   else Inr (?n, logs ?w2)) = Inr (?n - rejectedBy result, lg')"
  proof (cases "HasErrors result")
    case False
    then show ?thesis by (simp add: rejectedBy_def)
  next
    case True
    then have "length (ErrorVars result) = length stmts"
      using par bt by (metis fst_conv)
    then have "0 + int (length (ErrorVars result)) \<le> int (length mapping)"
      using ls nle lm by simp
    from countErrors_ok [OF order_refl this, of ?n "logs ?w2"]
    show ?thesis using True by (simp add: rejectedBy_def)
  qed
  then obtain lg' where ce': "(if HasErrors result
                   then countErrors (ErrorVars result) 0 mapping ?n (logs ?w2)
                   else Inr (?n, logs ?w2)) = Inr (?n - rejectedBy result, lg')"
    by blast
  have acc: "accepted = ?n - rejectedBy result"
    using ls bt by (simp add: accepted_def)
  have "handlerInsert st now r w =
           Inr (writeResponse 200 (if accepted = nlines then statusOK else statusWarning)
                  (processed accepted nlines) None, ?w2\<lparr>logs := lg'\<rparr>)"
    unfolding handlerInsert_def Let_def
    using post body vl bs bt sw1 ce' acc by (simp add: nlines_def)
  moreover have "calls (?w2\<lparr>logs := lg'\<rparr>) = calls w @ [CallBatch stmts]"
    by (simp add: called_def)
  moreover have "store (?w2\<lparr>logs := lg'\<rparr>) = snd (Batch st (store w) stmts)"
    using bt by simp
  ultimately show ?thesis by blast
qed

lemma statementOfLine_cases:
  assumes "validStatement_Match l"
  shows "(fitting [l] \<and> (\<exists>s. statementOfLine dv ds l = Inr s)) \<or>
         (\<not> fitting [l] \<and> statementOfLine dv ds l = Inl (Panic ''poor validation panic''))"
proof -
  from assms obtain m where m: "validStatement_FindSubmatch l = Some m"
    by (auto simp: Match_iff_FindSubmatch)
  have f: "fitting [l] \<longleftrightarrow> digitsValue (m ! 3) < 2 ^ 63" using m by (simp add: fitting_iff)
  show ?thesis
    using statementOfMatch_result [OF m, of dv ds] statementOfLine_eq_Match [OF m, of dv ds] f
    by (cases "digitsValue (m ! 3) < 2 ^ 63") auto
qed

lemma fitting_unmatched: "\<not> validStatement_Match l \<Longrightarrow> fitting [l]"
  by (simp add: fitting_iff Match_iff_FindSubmatch)

lemma parseLines_cmd_panic:
  assumes "\<not> fitting lines"
  shows "parseLines_cmd dv ds lines i sts im sk lg = Inl (Panic ''poor validation panic'')"
  using assms
proof (induction lines arbitrary: i sts im sk lg)
  case Nil
  then show ?case by (simp add: fitting_iff)
next
  case (Cons l ls)
  show ?case
  proof (cases "validStatement_Match l")
    case False
    then have "\<not> fitting ls" using Cons.prems fitting_unmatched [OF False]
      by (simp add: fitting_Cons [of l ls])
    moreover have "validStatement_FindSubmatch l = None"
      using False by (simp add: Match_iff_FindSubmatch)
    ultimately show ?thesis using Cons.IH by simp
  next
    case True
    then obtain m where m: "validStatement_FindSubmatch l = Some m"
      by (auto simp: Match_iff_FindSubmatch)
    note e = statementOfLine_eq_Match [OF m, of dv ds]
    from statementOfLine_cases [OF True, of dv ds] show ?thesis
    proof
      assume a: "fitting [l] \<and> (\<exists>s. statementOfLine dv ds l = Inr s)"
      then have "\<not> fitting ls" using Cons.prems by (simp add: fitting_Cons [of l ls])
      then show ?thesis using a m e Cons.IH by auto
    next
      assume "\<not> fitting [l] \<and> statementOfLine dv ds l = Inl (Panic ''poor validation panic'')"
      then show ?thesis using m e by simp
    qed
  qed
qed

lemma buildStatements_panic:
  assumes "0 \<le> i" "i \<le> n" "n \<le> int (length mapping)"
    and "\<forall>j. i \<le> j \<and> j < n \<longrightarrow>
           0 \<le> mapping ! nat j \<and> mapping ! nat j < int (length lines) \<and>
           validStatement_Match (lines ! nat (mapping ! nat j))"
    and "\<exists>j. i \<le> j \<and> j < n \<and> \<not> fitting [lines ! nat (mapping ! nat j)]"
  shows "buildStatements dv ds lines mapping n i sts = Inl (Panic ''poor validation panic'')"
  using assms
proof (induction "nat (n - i)" arbitrary: i sts)
  case 0
  then show ?case by auto
next
  case (Suc d)
  then have lt: "i < n" by simp
  from Suc.prems(4) lt have
    k: "0 \<le> mapping ! nat i" "mapping ! nat i < int (length lines)"
    and mt: "validStatement_Match (lines ! nat (mapping ! nat i))"
    by (metis order_refl)+
  have im: "index mapping i = Inr (mapping ! nat i)"
    using Suc.prems lt by (simp add: index_def)
  have il: "index lines (mapping ! nat i) = Inr (lines ! nat (mapping ! nat i))"
    using k by (simp add: index_def)
  from statementOfLine_cases [OF mt, of dv ds] show ?case
  proof
    assume a: "fitting [lines ! nat (mapping ! nat i)] \<and>
               (\<exists>s. statementOfLine dv ds (lines ! nat (mapping ! nat i)) = Inr s)"
    then obtain s where s: "statementOfLine dv ds (lines ! nat (mapping ! nat i)) = Inr s"
      by blast
    have d: "d = nat (n - (i + 1))" using Suc.hyps(2) by simp
    have p: "0 \<le> i + 1" "i + 1 \<le> n" using Suc.prems lt by simp_all
    have q: "\<forall>j. i + 1 \<le> j \<and> j < n \<longrightarrow>
           0 \<le> mapping ! nat j \<and> mapping ! nat j < int (length lines) \<and>
           validStatement_Match (lines ! nat (mapping ! nat j))"
      using Suc.prems(4) by simp
    from Suc.prems(5) obtain j where
      j: "i \<le> j" "j < n" "\<not> fitting [lines ! nat (mapping ! nat j)]" by blast
    then have "j \<noteq> i" using a by auto
    then have "i + 1 \<le> j" using j(1) by simp
    then have e: "\<exists>j. i + 1 \<le> j \<and> j < n \<and> \<not> fitting [lines ! nat (mapping ! nat j)]"
      using j by blast
    have "buildStatements dv ds lines mapping n (i + 1) (sts @ [s]) =
            Inl (Panic ''poor validation panic'')"
      by (rule Suc.hyps(1) [OF d p Suc.prems(3) q e])
    then show ?thesis
      using lt im il s by (simp add: buildStatements.simps [of dv ds lines mapping n i])
  next
    assume "\<not> fitting [lines ! nat (mapping ! nat i)] \<and>
            statementOfLine dv ds (lines ! nat (mapping ! nat i)) =
              Inl (Panic ''poor validation panic'')"
    then show ?thesis
      using lt im il by (simp add: buildStatements.simps [of dv ds lines mapping n i])
  qed
qed

lemma handlerInsert_cmd_panic:
  assumes "Method r = ''POST''" "Body r = Inr b" "\<not> fitting (bytes_Split b)"
  shows "handlerInsert_cmd st now r w = Inl (Panic ''poor validation panic'')"
  using assms parseLines_cmd_panic [OF assms(3)]
  by (simp add: handlerInsert_cmd_def Let_def)

lemma handlerInsert_panic:
  assumes post: "Method r = ''POST''" and body: "Body r = Inr b"
    and nf: "\<not> fitting (bytes_Split b)"
  shows "handlerInsert st now r w = Inl (Panic ''poor validation panic'')"
proof -
  let ?lines = "bytes_Split b"
  let ?mi = "matchedIndices 0 ?lines"
  let ?n = "int (length ?mi)"
  let ?ds = "Truncate now sequenceFrequency"
  note p = matchedIndices_props [of 0 ?lines]
  have nle: "length ?mi \<le> length ?lines" using p by simp
  have pre: "(0::int) \<le> 0" "0 + int (length ?lines) \<le> int (length (replicate (length ?lines) (0::int)))"
    by simp_all
  from validateLines_ok [OF pre(1) pre(1) pre(2), of "logs w"]
  obtain mapping lg where
    vl: "validateLines ?lines 0 (replicate (length ?lines) 0) 0 (logs w) = Inr (mapping, ?n, lg)"
    and lm: "length mapping = length ?lines"
    and tk: "take (length ?mi) mapping = ?mi"
    by auto
  have mp: "map (\<lambda>k. ?lines ! nat k) ?mi = filter validStatement_Match ?lines"
    using p by simp
  have nth: "\<And>j. 0 \<le> j \<Longrightarrow> j < ?n \<Longrightarrow> mapping ! nat j = ?mi ! nat j \<and> nat j < length ?mi"
  proof -
    fix j :: int assume j: "0 \<le> j" "j < ?n"
    then have l: "nat j < length ?mi" by linarith
    then have "take (length ?mi) mapping ! nat j = mapping ! nat j" by simp
    then show "mapping ! nat j = ?mi ! nat j \<and> nat j < length ?mi" using tk l by simp
  qed
  have q: "\<forall>j. 0 \<le> j \<and> j < ?n \<longrightarrow>
           0 \<le> mapping ! nat j \<and> mapping ! nat j < int (length ?lines) \<and>
           validStatement_Match (?lines ! nat (mapping ! nat j))"
  proof (intro allI impI)
    fix j :: int assume j: "0 \<le> j \<and> j < ?n"
    then have n: "mapping ! nat j = ?mi ! nat j" "nat j < length ?mi" using nth by simp_all
    then have i: "?mi ! nat j \<in> set ?mi" by simp
    have "map (\<lambda>k. ?lines ! nat k) ?mi ! nat j = ?lines ! nat (?mi ! nat j)"
      using n(2) by simp
    then have "?lines ! nat (?mi ! nat j) \<in> set (filter validStatement_Match ?lines)"
      using mp n(2) by (metis length_map nth_mem)
    then show "0 \<le> mapping ! nat j \<and> mapping ! nat j < int (length ?lines) \<and>
           validStatement_Match (?lines ! nat (mapping ! nat j))"
      using p i n(1) by auto
  qed
  from nf obtain l where l: "l \<in> set ?lines" "\<not> fitting [l]"
    by (auto simp: fitting_iff)
  then have "validStatement_Match l" using fitting_unmatched by blast
  then have "l \<in> set (map (\<lambda>k. ?lines ! nat k) ?mi)" using l(1) mp by simp
  then obtain j' where j': "j' < length ?mi" "?lines ! nat (?mi ! j') = l"
    by (auto simp: in_set_conv_nth)
  have e: "\<exists>j. 0 \<le> j \<and> j < ?n \<and> \<not> fitting [?lines ! nat (mapping ! nat j)]"
  proof (intro exI [of _ "int j'"] conjI)
    show "0 \<le> int j'" by simp
    show "int j' < ?n" using j'(1) by simp
    have "mapping ! nat (int j') = ?mi ! j'" using nth [of "int j'"] j'(1) by simp
    then show "\<not> fitting [?lines ! nat (mapping ! nat (int j'))]" using j'(2) l(2) by simp
  qed
  have nm: "?n \<le> int (length mapping)" using nle lm by simp
  have z: "(0::int) \<le> ?n" by simp
  have "buildStatements now ?ds ?lines mapping ?n 0 [] = Inl (Panic ''poor validation panic'')"
    by (rule buildStatements_panic [OF order_refl z nm q e])
  then show ?thesis
    unfolding handlerInsert_def Let_def using post body vl by simp
qed

subsection \<open>The response of an insert\<close>

lemma length_filter_eq_iff:
  "length (filter P xs) = length xs \<longleftrightarrow> (\<forall>x \<in> set xs. P x)"
proof (induction xs)
  case Nil
  then show ?case by simp
next
  case (Cons x xs)
  show ?case
  proof (cases "P x")
    case True
    then show ?thesis using Cons by simp
  next
    case False
    have "length (filter P xs) \<noteq> Suc (length xs)"
      using length_filter_le [of P xs] by linarith
    then show ?thesis using False by simp
  qed
qed

lemma accepted_all_iff:
  fixes rej :: int
  assumes "0 \<le> rej"
  shows "int (length (filter P xs)) - rej = int (length xs) \<longleftrightarrow> (\<forall>x \<in> set xs. P x) \<and> rej = 0"
proof
  assume l: "int (length (filter P xs)) - rej = int (length xs)"
  have "int (length (filter P xs)) \<le> int (length xs)" by simp
  then have "length (filter P xs) = length xs \<and> rej = 0" using l assms by linarith
  then show "(\<forall>x \<in> set xs. P x) \<and> rej = 0" by (simp add: length_filter_eq_iff)
next
  assume "(\<forall>x \<in> set xs. P x) \<and> rej = 0"
  then have "length (filter P xs) = length xs \<and> rej = 0" by (simp add: length_filter_eq_iff)
  then show "int (length (filter P xs)) - rej = int (length xs)" by simp
qed

lemma length_bytes_Split:
  "length (bytes_Split b) = Suc (length (filter (\<lambda>c. c = CHR 0x0A) b))"
  by (induction b) (auto split: list.splits)

lemma rejectedBy_nonneg: "0 \<le> rejectedBy result"
  by (simp add: rejectedBy_def)

text \<open>
  What holds of the response of an insert.  For every POST body in which every explicit timestamp of a
  matching line is an \<open>int64\<close>, and every store whose error list is parallel to the
  batch, both versions of the handler respond 200 with the message
  "processed X/Y statement(s)", where \<open>Y\<close> is the number of lines and \<open>X\<close> the number of
  matching lines minus the number of statements the store rejected; the status is "ok"
  exactly when \<open>X = Y\<close>, that is when every line matched and the store rejected none, and
  "warning" otherwise.
\<close>

theorem insert_response_status:
  fixes st :: "('s, 'q) Store" and w :: "('s, 'f) world" and now :: Time and b :: string
  assumes post: "Method r = ''POST''" and body: "Body r = Inr b"
    and fit: "fitting (bytes_Split b)"
    and par: "\<forall>s xs. HasErrors (fst (Batch st s xs)) \<longrightarrow>
                length (ErrorVars (fst (Batch st s xs))) = length xs"
  defines "stmts \<equiv> statementsOf now (bytes_Split b)"
  defines "accepted \<equiv> int (length stmts) - rejectedBy (fst (Batch st (store w) stmts))"
  defines "nlines \<equiv> int (length (bytes_Split b))"
  shows "(\<exists>w'. handlerInsert st now r w =
            Inr (writeResponse 200 (if accepted = nlines then statusOK else statusWarning)
                   (processed accepted nlines) None, w')) \<and>
         (\<exists>w'. handlerInsert_cmd st now r w =
            Inr (writeResponse 200 (if accepted = nlines then statusOK else statusWarning)
                   (processed accepted nlines) None, w')) \<and>
         (accepted = nlines \<longleftrightarrow>
            (\<forall>l \<in> set (bytes_Split b). validStatement_Match l) \<and>
            rejectedBy (fst (Batch st (store w) stmts)) = 0) \<and>
         length stmts = length (filter validStatement_Match (bytes_Split b)) \<and>
         statusOK \<noteq> statusWarning"
proof -
  have A: "\<exists>w'. handlerInsert st now r w =
            Inr (writeResponse 200 (if accepted = nlines then statusOK else statusWarning)
                   (processed accepted nlines) None, w')"
    using handlerInsert_response [OF post body fit par, of now w]
    unfolding stmts_def accepted_def nlines_def by blast
  have B: "\<exists>w'. handlerInsert_cmd st now r w =
            Inr (writeResponse 200 (if accepted = nlines then statusOK else statusWarning)
                   (processed accepted nlines) None, w')"
    using handlerInsert_cmd_response [OF post body fit par, of now w]
    unfolding stmts_def accepted_def nlines_def by blast
  have L: "length stmts = length (filter validStatement_Match (bytes_Split b))"
    unfolding stmts_def by (rule length_statementsOf [OF fit])
  have C: "accepted = nlines \<longleftrightarrow>
            (\<forall>l \<in> set (bytes_Split b). validStatement_Match l) \<and>
            rejectedBy (fst (Batch st (store w) stmts)) = 0"
    unfolding accepted_def nlines_def L
    by (rule accepted_all_iff [OF rejectedBy_nonneg])
  have D: "statusOK \<noteq> statusWarning" by (simp add: statusOK_def statusWarning_def)
  show ?thesis by (intro conjI A B C L D)
qed

lemma example_lines:
  "bytes_Split (''k1 1'' @ [CHR 0x0A] @ ''k2 0'' @ [CHR 0x0A] @ ''badline'' @ [CHR 0x0A] @ ''k3 1'')
     = [''k1 1'', ''k2 0'', ''badline'', ''k3 1'']"
  by simp

lemma example_matches:
  "validStatement_FindSubmatch ''k1 1'' = Some [''k1 1'', ''k1'', ''1'', []]"
  "validStatement_FindSubmatch ''k2 0'' = Some [''k2 0'', ''k2'', ''0'', []]"
  "validStatement_FindSubmatch ''k3 1'' = Some [''k3 1'', ''k3'', ''1'', []]"
  "validStatement_FindSubmatch ''badline'' = None"
  "validStatement_FindSubmatch [] = None"
  by (simp_all add: validStatement_FindSubmatch_def isWordChar_def)

lemma example_fitting: "fitting [''k1 1'', ''k2 0'', ''badline'', ''k3 1'']"
  by (simp add: fitting_iff example_matches digitsValue_def)

lemma keysStore_parallel:
  "\<forall>s xs. HasErrors (fst (Batch keysStore s xs)) \<longrightarrow>
     length (ErrorVars (fst (Batch keysStore s xs))) = length xs"
  by (simp add: keysStore_def)

lemma processed_3_4: "processed 3 4 = ''processed 3/4 statement(s)''"
  by (simp add: processed_def fmt_d_def showNat.simps)

text \<open>The theorem at the body \<open>k1 1\<newline>k2 0\<newline>badline\<newline>k3 1\<close> against the empty
  store: status "warning", message "processed 3/4 statement(s)".\<close>

theorem insert_response_status_witness:
  "Method (insertRequest (''k1 1'' @ [CHR 0x0A] @ ''k2 0'' @ [CHR 0x0A] @ ''badline'' @ [CHR 0x0A] @ ''k3 1'')) = ''POST'' \<and>
   fitting (bytes_Split (''k1 1'' @ [CHR 0x0A] @ ''k2 0'' @ [CHR 0x0A] @ ''badline'' @ [CHR 0x0A] @ ''k3 1'')) \<and>
   (\<exists>w'. handlerInsert keysStore (time_Unix 1692316807)
            (insertRequest (''k1 1'' @ [CHR 0x0A] @ ''k2 0'' @ [CHR 0x0A] @ ''badline'' @ [CHR 0x0A] @ ''k3 1''))
            emptyWorld =
          Inr (writeResponse 200 statusWarning ''processed 3/4 statement(s)'' None, w')) \<and>
   (\<exists>w'. handlerInsert_cmd keysStore (time_Unix 1692316807)
            (insertRequest (''k1 1'' @ [CHR 0x0A] @ ''k2 0'' @ [CHR 0x0A] @ ''badline'' @ [CHR 0x0A] @ ''k3 1''))
            emptyWorld =
          Inr (writeResponse 200 statusWarning ''processed 3/4 statement(s)'' None, w'))"
proof -
  let ?b = "''k1 1'' @ [CHR 0x0A] @ ''k2 0'' @ [CHR 0x0A] @ ''badline'' @ [CHR 0x0A] @ ''k3 1''"
  let ?now = "time_Unix 1692316807"
  have post: "Method (insertRequest ?b) = ''POST''" by (simp add: insertRequest_def)
  have body: "Body (insertRequest ?b) = Inr ?b" by (simp add: insertRequest_def)
  have fit: "fitting (bytes_Split ?b)" using example_fitting example_lines by simp
  note t = insert_response_status [OF post body fit keysStore_parallel, of ?now emptyWorld]
  have m: "filter validStatement_Match (bytes_Split ?b) = [''k1 1'', ''k2 0'', ''k3 1'']"
    unfolding example_lines by (simp add: Match_iff_FindSubmatch example_matches)
  have len: "length (statementsOf ?now (bytes_Split ?b)) = 3"
    using t [THEN conjunct2, THEN conjunct2, THEN conjunct2, THEN conjunct1] m by simp
  have rej: "rejectedBy (fst (Batch keysStore (store emptyWorld)
                (statementsOf ?now (bytes_Split ?b)))) = 0"
    by (simp add: rejectedBy_def keysStore_def)
  have n: "int (length (bytes_Split ?b)) = 4" unfolding example_lines by simp
  have st: "statusOK \<noteq> statusWarning" using t by blast
  have A: "\<exists>w'. handlerInsert keysStore ?now (insertRequest ?b) emptyWorld =
          Inr (writeResponse 200 statusWarning ''processed 3/4 statement(s)'' None, w')"
    using t [THEN conjunct1] unfolding len rej n by (simp add: processed_3_4)
  have B: "\<exists>w'. handlerInsert_cmd keysStore ?now (insertRequest ?b) emptyWorld =
          Inr (writeResponse 200 statusWarning ''processed 3/4 statement(s)'' None, w')"
    using t [THEN conjunct2, THEN conjunct1] unfolding len rej n by (simp add: processed_3_4)
  show ?thesis by (intro conjI post fit A B)
qed

text \<open>The same body against a store that rejects every statement for the key \<open>k2\<close>: the
  third line is skipped, the statement of the second line is rejected, and the message is
  "processed 2/4 statement(s)".\<close>

lemma example_statements:
  "statementsOf now [''k1 1'', ''k2 0'', ''badline'', ''k3 1''] =
     [newStatement ''k1'' now StateActive (Truncate now sequenceFrequency),
      newStatement ''k2'' now StateInactive (Truncate now sequenceFrequency),
      newStatement ''k3'' now StateActive (Truncate now sequenceFrequency)]"
  by (simp add: statementsOf_def Match_iff_FindSubmatch example_matches
      statementOfLine_eq_Match [OF example_matches(1)]
      statementOfLine_eq_Match [OF example_matches(2)]
      statementOfLine_eq_Match [OF example_matches(3)]
      statementOfMatch_parts andThen_def decodeValue_def)

lemma strictStore_parallel:
  "\<forall>s xs. HasErrors (fst (Batch strictStore s xs)) \<longrightarrow>
     length (ErrorVars (fst (Batch strictStore s xs))) = length xs"
  by (simp add: strictStore_def keysStore_def)

lemma processed_2_4: "processed 2 4 = ''processed 2/4 statement(s)''"
  by (simp add: processed_def fmt_d_def showNat.simps)

theorem insert_response_rejected_example:
  "(\<exists>w'. handlerInsert strictStore (time_Unix 1692316807)
            (insertRequest (''k1 1'' @ [CHR 0x0A] @ ''k2 0'' @ [CHR 0x0A] @ ''badline'' @ [CHR 0x0A] @ ''k3 1''))
            emptyWorld =
          Inr (writeResponse 200 statusWarning ''processed 2/4 statement(s)'' None, w')) \<and>
   (\<exists>w'. handlerInsert_cmd strictStore (time_Unix 1692316807)
            (insertRequest (''k1 1'' @ [CHR 0x0A] @ ''k2 0'' @ [CHR 0x0A] @ ''badline'' @ [CHR 0x0A] @ ''k3 1''))
            emptyWorld =
          Inr (writeResponse 200 statusWarning ''processed 2/4 statement(s)'' None, w'))"
proof -
  let ?b = "''k1 1'' @ [CHR 0x0A] @ ''k2 0'' @ [CHR 0x0A] @ ''badline'' @ [CHR 0x0A] @ ''k3 1''"
  let ?now = "time_Unix 1692316807"
  let ?w = "emptyWorld"
  have post: "Method (insertRequest ?b) = ''POST''" by (simp add: insertRequest_def)
  have body: "Body (insertRequest ?b) = Inr ?b" by (simp add: insertRequest_def)
  have fit: "fitting (bytes_Split ?b)" using example_fitting example_lines by simp
  note t = insert_response_status [OF post body fit strictStore_parallel, of ?now ?w]
  have rej: "rejectedBy (fst (Batch strictStore (store ?w)
                (statementsOf ?now (bytes_Split ?b)))) = 1"
    unfolding example_lines example_statements
    by (simp add: rejectedBy_def strictStore_def keysStore_def newStatement_def)
  have len: "length (statementsOf ?now (bytes_Split ?b)) = 3"
    unfolding example_lines example_statements by simp
  have n: "int (length (bytes_Split ?b)) = 4" unfolding example_lines by simp
  have A: "\<exists>w'. handlerInsert strictStore ?now (insertRequest ?b) ?w =
          Inr (writeResponse 200 statusWarning ''processed 2/4 statement(s)'' None, w')"
    using t [THEN conjunct1] unfolding len rej n
    by (simp add: processed_2_4 statusOK_def statusWarning_def)
  have B: "\<exists>w'. handlerInsert_cmd strictStore ?now (insertRequest ?b) ?w =
          Inr (writeResponse 200 statusWarning ''processed 2/4 statement(s)'' None, w')"
    using t [THEN conjunct2, THEN conjunct1] unfolding len rej n
    by (simp add: processed_2_4 statusOK_def statusWarning_def)
  show ?thesis by (intro conjI A B)
qed

text \<open>A body in which an explicit timestamp is not an \<open>int64\<close>: the handler panics.\<close>

lemma not_fitting_line:
  "\<not> fitting [''k 1 9223372036854775808'']"
proof -
  have "validStatement_FindSubmatch ''k 1 9223372036854775808'' =
          Some [''k 1 9223372036854775808'', ''k'', ''1'', ''9223372036854775808'']"
    by (simp add: validStatement_FindSubmatch_def isWordChar_def isDigit_def)
  moreover have "digitsValue ''9223372036854775808'' = 9223372036854775808"
    by (simp add: digitsValue_def)
  ultimately show ?thesis by (simp add: fitting_iff)
qed

text \<open>
  Claim C2 is broken by the code at the body \<open>badline\<newline>k 1 9223372036854775808\<close>: the
  first line is skipped by the parser, and yet both versions of the handler give no
  response with the status "warning": they panic at the second line, which matches the
  grammar and whose timestamp is not an \<open>int64\<close>.
\<close>

theorem insert_panics_after_skipped_line:
  "\<not> validStatement_Match ''badline'' \<and>
   validStatement_Match ''k 1 9223372036854775808'' \<and>
   handlerInsert keysStore (time_Unix 1692316807)
       (insertRequest (''badline'' @ [CHR 0x0A] @ ''k 1 9223372036854775808'')) emptyWorld =
     Inl (Panic ''poor validation panic'') \<and>
   handlerInsert_cmd keysStore (time_Unix 1692316807)
       (insertRequest (''badline'' @ [CHR 0x0A] @ ''k 1 9223372036854775808'')) emptyWorld =
     Inl (Panic ''poor validation panic'')"
proof -
  let ?b = "''badline'' @ [CHR 0x0A] @ ''k 1 9223372036854775808''"
  have post: "Method (insertRequest ?b) = ''POST''" by (simp add: insertRequest_def)
  have body: "Body (insertRequest ?b) = Inr ?b" by (simp add: insertRequest_def)
  have l: "bytes_Split ?b = [''badline'', ''k 1 9223372036854775808'']" by simp
  have nf: "\<not> fitting (bytes_Split ?b)"
    unfolding l using not_fitting_line
    by (simp add: fitting_Cons [of "''badline''" "[''k 1 9223372036854775808'']"])
  have a: "\<not> validStatement_Match ''badline''"
    by (simp add: Match_iff_FindSubmatch example_matches)
  have b: "validStatement_Match ''k 1 9223372036854775808''"
    using not_fitting_line fitting_unmatched by blast
  show ?thesis
    by (intro conjI a b handlerInsert_panic [OF post body nf]
        handlerInsert_cmd_panic [OF post body nf])
qed


subsection \<open>The count of an insert\<close>

lemma rejectedBy_le:
  assumes "HasErrors result \<longrightarrow> length (ErrorVars result) = n"
  shows "rejectedBy result \<le> int n"
proof (cases "HasErrors result")
  case False
  then show ?thesis by (simp add: rejectedBy_def)
next
  case True
  have "length (filter (\<lambda>e. e \<noteq> None) (ErrorVars result)) \<le> length (ErrorVars result)"
    by (rule length_filter_le)
  then show ?thesis using True assms by (simp add: rejectedBy_def)
qed

text \<open>
  What holds of the counts of an insert.  For every POST body in which every explicit timestamp of a
  matching line is an \<open>int64\<close>, and every store whose error list is parallel to the
  batch: the handler submits the statements of the matching lines as one batch and
  reports "processed X/Y"; \<open>X\<close>, the number of accepted statements, plus the number of
  lines that failed the grammar and of statements the store rejected, equals \<open>Y\<close>, the
  number of lines, which is one more than the number of newlines in the body; an empty
  line, a trailing one included, fails the grammar.
\<close>

theorem insert_counts_add_up:
  fixes st :: "('s, 'q) Store" and w :: "('s, 'f) world" and now :: Time and b :: string
  assumes post: "Method r = ''POST''" and body: "Body r = Inr b"
    and fit: "fitting (bytes_Split b)"
    and par: "\<forall>s xs. HasErrors (fst (Batch st s xs)) \<longrightarrow>
                length (ErrorVars (fst (Batch st s xs))) = length xs"
  defines "stmts \<equiv> statementsOf now (bytes_Split b)"
  defines "rejected \<equiv> rejectedBy (fst (Batch st (store w) stmts))"
  defines "skipped \<equiv> int (length (filter (\<lambda>l. \<not> validStatement_Match l) (bytes_Split b)))"
  defines "accepted \<equiv> int (length stmts) - rejected"
  defines "nlines \<equiv> int (length (bytes_Split b))"
  shows "(\<exists>status w'. handlerInsert st now r w =
            Inr (writeResponse 200 status (processed accepted nlines) None, w') \<and>
            calls w' = calls w @ [CallBatch stmts]) \<and>
         (\<exists>status w'. handlerInsert_cmd st now r w =
            Inr (writeResponse 200 status (processed accepted nlines) None, w') \<and>
            calls w' = calls w @ [CallBatch stmts]) \<and>
         accepted + (skipped + rejected) = nlines \<and>
         0 \<le> accepted \<and> 0 \<le> skipped \<and> 0 \<le> rejected \<and>
         int (length stmts) + skipped = nlines \<and>
         nlines = 1 + int (length (filter (\<lambda>c. c = CHR 0x0A) b)) \<and>
         \<not> validStatement_Match []"
proof -
  have A: "\<exists>status w'. handlerInsert st now r w =
            Inr (writeResponse 200 status (processed accepted nlines) None, w') \<and>
            calls w' = calls w @ [CallBatch stmts]"
    using handlerInsert_response [OF post body fit par, of now w]
    unfolding stmts_def accepted_def nlines_def rejected_def by blast
  have B: "\<exists>status w'. handlerInsert_cmd st now r w =
            Inr (writeResponse 200 status (processed accepted nlines) None, w') \<and>
            calls w' = calls w @ [CallBatch stmts]"
    using handlerInsert_cmd_response [OF post body fit par, of now w]
    unfolding stmts_def accepted_def nlines_def rejected_def by blast
  have L: "length stmts = length (filter validStatement_Match (bytes_Split b))"
    unfolding stmts_def by (rule length_statementsOf [OF fit])
  have S: "int (length stmts) + skipped = nlines"
    unfolding L skipped_def nlines_def by (rule length_filter_split)
  have C: "accepted + (skipped + rejected) = nlines"
    using S by (simp add: accepted_def)
  have R: "0 \<le> rejected" unfolding rejected_def by (rule rejectedBy_nonneg)
  have "HasErrors (fst (Batch st (store w) stmts)) \<longrightarrow>
          length (ErrorVars (fst (Batch st (store w) stmts))) = length stmts"
    using par by blast
  then have "rejected \<le> int (length stmts)"
    unfolding rejected_def by (rule rejectedBy_le)
  then have P: "0 \<le> accepted" by (simp add: accepted_def)
  have K: "0 \<le> skipped" by (simp add: skipped_def)
  have N: "nlines = 1 + int (length (filter (\<lambda>c. c = CHR 0x0A) b))"
    by (simp add: nlines_def length_bytes_Split)
  have E: "\<not> validStatement_Match []" by (simp add: validStatement_Match_def)
  show ?thesis by (intro conjI A B C P K R S N E)
qed

lemma processed_1_2: "processed 1 2 = ''processed 1/2 statement(s)''"
  by (simp add: processed_def fmt_d_def showNat.simps)

text \<open>The theorem at the body \<open>k1 1\<newline>\<close>, whose second line is empty: "processed
  1/2".\<close>

theorem insert_counts_add_up_witness:
  "Method (insertRequest (''k1 1'' @ [CHR 0x0A])) = ''POST'' \<and>
   bytes_Split (''k1 1'' @ [CHR 0x0A]) = [''k1 1'', []] \<and>
   fitting (bytes_Split (''k1 1'' @ [CHR 0x0A])) \<and>
   (\<exists>status w'. handlerInsert keysStore (time_Unix 1692316807)
            (insertRequest (''k1 1'' @ [CHR 0x0A])) emptyWorld =
          Inr (writeResponse 200 status ''processed 1/2 statement(s)'' None, w')) \<and>
   (\<exists>status w'. handlerInsert_cmd keysStore (time_Unix 1692316807)
            (insertRequest (''k1 1'' @ [CHR 0x0A])) emptyWorld =
          Inr (writeResponse 200 status ''processed 1/2 statement(s)'' None, w'))"
proof -
  let ?b = "''k1 1'' @ [CHR 0x0A]"
  let ?now = "time_Unix 1692316807"
  have post: "Method (insertRequest ?b) = ''POST''" by (simp add: insertRequest_def)
  have body: "Body (insertRequest ?b) = Inr ?b" by (simp add: insertRequest_def)
  have l: "bytes_Split ?b = [''k1 1'', []]" by simp
  have fit: "fitting (bytes_Split ?b)"
    unfolding l by (simp add: fitting_iff example_matches digitsValue_def)
  note t = insert_counts_add_up [OF post body fit keysStore_parallel, of ?now emptyWorld]
  have sk: "int (length (filter (\<lambda>l. \<not> validStatement_Match l) (bytes_Split ?b))) = 1"
    unfolding l by (simp add: Match_iff_FindSubmatch example_matches)
  have n: "int (length (bytes_Split ?b)) = 2" unfolding l by simp
  have rej: "rejectedBy (fst (Batch keysStore (store emptyWorld)
                (statementsOf ?now (bytes_Split ?b)))) = 0"
    by (simp add: rejectedBy_def keysStore_def)
  have len: "int (length (statementsOf ?now (bytes_Split ?b))) = 1"
    using t [THEN conjunct2, THEN conjunct2, THEN conjunct2, THEN conjunct2, THEN conjunct2,
             THEN conjunct2, THEN conjunct1] unfolding sk n by simp
  have A: "\<exists>status w'. handlerInsert keysStore ?now (insertRequest ?b) emptyWorld =
          Inr (writeResponse 200 status ''processed 1/2 statement(s)'' None, w')"
    using t [THEN conjunct1] unfolding len rej n by (auto simp: processed_1_2)
  have B: "\<exists>status w'. handlerInsert_cmd keysStore ?now (insertRequest ?b) emptyWorld =
          Inr (writeResponse 200 status ''processed 1/2 statement(s)'' None, w')"
    using t [THEN conjunct2, THEN conjunct1] unfolding len rej n by (auto simp: processed_1_2)
  show ?thesis by (intro conjI post l fit A B)
qed

text \<open>
  Claim C3 is broken by the code at the body \<open>k 1 9223372036854775808\<newline>\<close>, which has two
  lines, the second one empty: both versions of the handler panic at the first line, so
  that nothing is submitted to the store and no count is reported.
\<close>

theorem insert_panics_before_trailing_line:
  "bytes_Split (''k 1 9223372036854775808'' @ [CHR 0x0A]) = [''k 1 9223372036854775808'', []] \<and>
   handlerInsert keysStore (time_Unix 1692316807)
       (insertRequest (''k 1 9223372036854775808'' @ [CHR 0x0A])) emptyWorld =
     Inl (Panic ''poor validation panic'') \<and>
   handlerInsert_cmd keysStore (time_Unix 1692316807)
       (insertRequest (''k 1 9223372036854775808'' @ [CHR 0x0A])) emptyWorld =
     Inl (Panic ''poor validation panic'')"
proof -
  let ?b = "''k 1 9223372036854775808'' @ [CHR 0x0A]"
  have post: "Method (insertRequest ?b) = ''POST''" by (simp add: insertRequest_def)
  have body: "Body (insertRequest ?b) = Inr ?b" by (simp add: insertRequest_def)
  have l: "bytes_Split ?b = [''k 1 9223372036854775808'', []]" by simp
  have nf: "\<not> fitting (bytes_Split ?b)"
    unfolding l using not_fitting_line
    by (simp add: fitting_Cons [of "''k 1 9223372036854775808''" "[[]]"])
  show ?thesis
    by (intro conjI l handlerInsert_panic [OF post body nf]
        handlerInsert_cmd_panic [OF post body nf])
qed

subsection \<open>The panic of the timestamp\<close>

text \<open>
  Claim C5 does not hold of the code.  By \<open>statementOfMatch_result\<close>, after a match the
  decoding of the state digit never panics and no index is out of range, but the
  decoding of the timestamp panics exactly when the digits denote a number that is not an
  \<open>int64\<close>: the grammar bounds neither the length nor the value of \<open>\d+\<close>.  The line
  \<open>k 1 9223372036854775808\<close> matches, \<open>strconv.Atoi\<close> answers its timestamp with a range
  error, and both versions of the handler reach "poor validation panic", whatever the
  store and the time.
\<close>

theorem poor_validation_panic_reached:
  "validStatement_Match ''k 1 9223372036854775808'' \<and>
   validStatement_FindSubmatch ''k 1 9223372036854775808'' =
     Some [''k 1 9223372036854775808'', ''k'', ''1'', ''9223372036854775808''] \<and>
   Atoi ''9223372036854775808'' = Inl ErrRange \<and>
   handlerInsert st now (insertRequest ''k 1 9223372036854775808'') w =
     Inl (Panic ''poor validation panic'') \<and>
   handlerInsert_cmd st now (insertRequest ''k 1 9223372036854775808'') w =
     Inl (Panic ''poor validation panic'')"
proof -
  let ?b = "''k 1 9223372036854775808''"
  have post: "Method (insertRequest ?b) = ''POST''" by (simp add: insertRequest_def)
  have body: "Body (insertRequest ?b) = Inr ?b" by (simp add: insertRequest_def)
  have l: "bytes_Split ?b = [?b]" by simp
  have nf: "\<not> fitting (bytes_Split ?b)" unfolding l by (rule not_fitting_line)
  have a: "validStatement_Match ?b" using not_fitting_line fitting_unmatched by blast
  have f: "validStatement_FindSubmatch ?b = Some [?b, ''k'', ''1'', ''9223372036854775808'']"
    by (simp add: validStatement_FindSubmatch_def isWordChar_def isDigit_def)
  have d: "digitsValue ''9223372036854775808'' = 9223372036854775808"
    by (simp add: digitsValue_def)
  have e: "Atoi ''9223372036854775808'' = Inl ErrRange"
    using Atoi_digits [of "''9223372036854775808''"] d by (simp add: isDigit_def)
  show ?thesis
    by (intro conjI a f e handlerInsert_panic [OF post body nf]
        handlerInsert_cmd_panic [OF post body nf])
qed

end
